theory Spec2Isabelle
  imports Main "HOL-Library.Word" "HOL-Library.Multiset"
begin

section \<open>The money value type (pkg/money)\<close>

text \<open>
  Go's \<open>int64\<close> is a 64-bit word read in two's complement: \<open>+\<close> and \<open>-\<close> wrap
  silently, \<open>sint\<close> gives the value. The weights are Go \<open>int\<close>s, taken here at their
  width on the 64-bit targets (amd64, arm64), where \<open>int64(w)\<close> is the identity.
\<close>

type_synonym int64 = "64 word"

record Money =
  amount :: int64
  currency :: string

definition New :: "int64 \<Rightarrow> string \<Rightarrow> Money" where
  "New a c = \<lparr>amount = a, currency = c\<rparr>"

definition Amount :: "Money \<Rightarrow> int64" where
  "Amount m = amount m"

definition Currency :: "Money \<Rightarrow> string" where
  "Currency m = currency m"

section \<open>math/big and sort, as far as Split uses them\<close>

text \<open>
  \<open>big.NewInt\<close> reads an \<open>int64\<close> into an unbounded integer; \<open>Int.Mul\<close> is exact;
  \<open>Int.Div\<close> and \<open>Int.Mod\<close> are Euclidean division and modulus (the modulus is never
  negative, whatever the sign of the divisor); \<open>Int.Int64\<close> keeps the low 64 bits.
\<close>

definition NewInt :: "int64 \<Rightarrow> int" where
  "NewInt x = sint x"

definition big_Mod :: "int \<Rightarrow> int \<Rightarrow> int" where
  "big_Mod x y = x mod \<bar>y\<bar>"

definition big_Div :: "int \<Rightarrow> int \<Rightarrow> int" where
  "big_Div x y = sgn y * (x div \<bar>y\<bar>)"

definition Int64 :: "int \<Rightarrow> int64" where
  "Int64 x = word_of_int x"

text \<open>
  \<open>sort.Slice\<close> is not code of the repository. It is documented to sort the slice by
  the given less function and not to be stable: equal elements may end in any order.
  \<open>Split\<close> therefore takes the sort as a parameter \<open>srt\<close>, and the theorems assume of
  it the documented contract only, \<open>sorts_slice\<close>: the result is a permutation of the
  slice in which no element is less than an earlier one.

  \<open>insertionSort\<close> is one sorter that meets the contract, used where a theorem
  evaluates \<open>Split\<close> at a concrete input. It is the insertion sort of Go's \<open>sort\<close>
  package: \<open>insert_back\<close> is its inner loop, which moves the new element towards the
  front while it is less than its left neighbour (the sorted prefix is held last element
  first). Go 1.19 and later sort a slice of at most 12 elements with exactly this
  insertion sort, and every input at which a result of \<open>Split\<close> is computed below has
  at most 12 weights.
\<close>

fun insert_back :: "('a \<Rightarrow> 'a \<Rightarrow> bool) \<Rightarrow> 'a \<Rightarrow> 'a list \<Rightarrow> 'a list" where
  "insert_back lt x [] = [x]"
| "insert_back lt x (y # ys) =
     (if lt x y then y # insert_back lt x ys else x # y # ys)"

definition insertionSort :: "('a \<Rightarrow> 'a \<Rightarrow> bool) \<Rightarrow> 'a list \<Rightarrow> 'a list" where
  "insertionSort lt xs = rev (foldl (\<lambda>acc x. insert_back lt x acc) [] xs)"

type_synonym 'a sorter = "('a \<Rightarrow> 'a \<Rightarrow> bool) \<Rightarrow> 'a list \<Rightarrow> 'a list"

definition sorts_slice :: "'a sorter \<Rightarrow> ('a \<Rightarrow> 'a \<Rightarrow> bool) \<Rightarrow> bool" where
  "sorts_slice srt lt \<longleftrightarrow>
     (\<forall>xs. mset (srt lt xs) = mset xs \<and> sorted_wrt (\<lambda>a b. \<not> lt b a) (srt lt xs))"

section \<open>Split (pkg/allocate)\<close>

datatype error = ErrInvalidWeights | PanicIndexOutOfRange

record entry =
  index :: nat
  base :: int64
  residue :: int64

definition mk_entry :: "int64 \<Rightarrow> int64 \<Rightarrow> nat \<Rightarrow> int64 \<Rightarrow> entry" where
  "mk_entry totalAmount sumWeights i w =
     (let bTotal = NewInt totalAmount;
          bWeight = NewInt w;
          bSum = NewInt sumWeights
      in \<lparr>index = i,
          base = Int64 (big_Div (bTotal * bWeight) bSum),
          residue = Int64 (big_Mod (bTotal * bWeight) bSum)\<rparr>)"

text \<open>Pass 1: one entry per weight, the remainder counted down by each base.\<close>

fun pass1 :: "int64 \<Rightarrow> int64 \<Rightarrow> nat \<Rightarrow> int64 list \<Rightarrow> int64 \<Rightarrow> entry list \<times> int64" where
  "pass1 totalAmount sumWeights i [] remainder = ([], remainder)"
| "pass1 totalAmount sumWeights i (w # ws) remainder =
     (let e = mk_entry totalAmount sumWeights i w;
          (es, r) = pass1 totalAmount sumWeights (Suc i) ws (remainder - base e)
      in (e # es, r))"

definition residue_gt :: "entry \<Rightarrow> entry \<Rightarrow> bool" where
  "residue_gt a b \<longleftrightarrow> sint (residue b) < sint (residue a)"

text \<open>
  Pass 2: \<open>for i := 0; i < int(remainder); i++ { entries[i].base++ }\<close>. The counter
  walks the ranked entries from the front; reaching the end of the slice with units
  left is Go's index-out-of-range panic.
\<close>

fun add_units :: "int \<Rightarrow> entry list \<Rightarrow> entry list option" where
  "add_units r [] = (if 0 < r then None else Some [])"
| "add_units r (e # es) =
     (if 0 < r then map_option ((#) (e\<lparr>base := base e + 1\<rparr>)) (add_units (r - 1) es)
      else Some (e # es))"

text \<open>Pass 3: \<open>finalParts[e.index] = e.base\<close> for each entry, in ranked order.\<close>

fun pass3 :: "entry list \<Rightarrow> int64 list \<Rightarrow> int64 list option" where
  "pass3 [] finalParts = Some finalParts"
| "pass3 (e # es) finalParts =
     (if index e < length finalParts then pass3 es (finalParts[index e := base e])
      else None)"

definition sum_weights :: "int64 list \<Rightarrow> int64" where
  "sum_weights weights = foldl (\<lambda>s w. s + w) 0 weights"

definition ranked :: "entry sorter \<Rightarrow> int64 \<Rightarrow> int64 list \<Rightarrow> entry list" where
  "ranked srt totalAmount weights =
     srt residue_gt (fst (pass1 totalAmount (sum_weights weights) 0 weights totalAmount))"

definition Split :: "entry sorter \<Rightarrow> Money \<Rightarrow> int64 list \<Rightarrow> error + Money list" where
  "Split srt tot weights =
     (if length weights = 0 then Inl ErrInvalidWeights
      else
        let totalAmount = Amount tot;
            sumWeights = sum_weights weights
        in if sumWeights = 0 then Inl ErrInvalidWeights
           else
             let remainder = snd (pass1 totalAmount sumWeights 0 weights totalAmount);
                 entries = ranked srt totalAmount weights
             in case add_units (sint remainder) entries of
                  None \<Rightarrow> Inl PanicIndexOutOfRange
                | Some entries' \<Rightarrow>
                    (case pass3 entries' (replicate (length weights) 0) of
                       None \<Rightarrow> Inl PanicIndexOutOfRange
                     | Some finalParts \<Rightarrow>
                         Inr (map (\<lambda>amt. New amt (Currency tot)) finalParts)))"

section \<open>AllocateTree (pkg/allocate)\<close>

datatype Node = Node (Name: string) (Weight: int64) (Children: "Node list") (Allocated: Money)

definition NewNode :: "string \<Rightarrow> int64 \<Rightarrow> Node list \<Rightarrow> Node" where
  "NewNode name weight children = Node name weight children \<lparr>amount = 0, currency = []\<rparr>"

fun set_Allocated :: "Node \<Rightarrow> Money \<Rightarrow> Node" where
  "set_Allocated (Node name weight children old) m = Node name weight children m"

text \<open>
  The tree is mutated in place; the model returns the tree as it stands when the call
  returns, next to the error (\<open>None\<close> is Go's \<open>nil\<close>). \<open>assign_children\<close> is the loop
  of step C: it stores \<open>amounts[i]\<close> in child \<open>i\<close> and recurses into that child before
  it moves to child \<open>i + 1\<close>.
\<close>

fun distribute :: "entry sorter \<Rightarrow> Node \<Rightarrow> error option \<times> Node"
  and assign_children :: "entry sorter \<Rightarrow> Money list \<Rightarrow> Node list \<Rightarrow> error option \<times> Node list"
  where
  "distribute srt (Node name weight children allocated) =
     (if length children = 0 then (None, Node name weight children allocated)
      else
        case Split srt allocated (map Weight children) of
          Inl err \<Rightarrow> (Some err, Node name weight children allocated)
        | Inr amounts \<Rightarrow>
            (case assign_children srt amounts children of
               (err, children') \<Rightarrow> (err, Node name weight children' allocated)))"
| "assign_children srt amounts [] = (None, [])"
| "assign_children srt amounts (Node name weight grand old # rest) =
     (case amounts of
        [] \<Rightarrow> (Some PanicIndexOutOfRange, Node name weight grand old # rest)
      | a # amounts' \<Rightarrow>
          (case distribute srt (Node name weight grand a) of
             (Some err, child') \<Rightarrow> (Some err, child' # rest)
           | (None, child') \<Rightarrow>
               (case assign_children srt amounts' rest of
                  (err, rest') \<Rightarrow> (err, child' # rest'))))"

definition AllocateTree :: "entry sorter \<Rightarrow> Node \<Rightarrow> Money \<Rightarrow> error option \<times> Node" where
  "AllocateTree srt root tot = distribute srt (set_Allocated root tot)"

section \<open>Notions used to state the properties\<close>

text \<open>One more unit on the base of an entry, as pass 2 does.\<close>

definition bump :: "entry \<Rightarrow> entry" where
  "bump e = e\<lparr>base := base e + 1\<rparr>"

text \<open>What \<open>AllocateTree\<close> must leave alone: names, weights and the children lists.\<close>

datatype Shape = Shape string int64 "Shape list"

fun shape_of :: "Node \<Rightarrow> Shape" where
  "shape_of (Node name weight children allocated) = Shape name weight (map shape_of children)"

text \<open>
  The exact sum of the weights, as opposed to the wrapping sum \<open>sum_weights\<close> that the
  code computes, and the valid inputs of the specification: a non-empty list of
  non-negative weights whose sum is positive.
\<close>

definition weight_sum :: "int64 list \<Rightarrow> int" where
  "weight_sum ws = sum_list (map sint ws)"

definition valid_weights :: "int64 list \<Rightarrow> bool" where
  "valid_weights ws \<longleftrightarrow> ws \<noteq> [] \<and> (\<forall>w\<in>set ws. 0 \<le> sint w) \<and> 0 < weight_sum ws"

text \<open>
  The entries of pass 1 and the value of \<open>int(remainder)\<close> after it, and the amounts of
  the returned parts read as integers.
\<close>

definition entries_of :: "Money \<Rightarrow> int64 list \<Rightarrow> entry list" where
  "entries_of tot ws = fst (pass1 (Amount tot) (sum_weights ws) 0 ws (Amount tot))"

definition units :: "Money \<Rightarrow> int64 list \<Rightarrow> int" where
  "units tot ws = sint (snd (pass1 (Amount tot) (sum_weights ws) 0 ws (Amount tot)))"

definition part_values :: "Money list \<Rightarrow> int list" where
  "part_values parts = map (\<lambda>p. sint (Amount p)) parts"

text \<open>
  Trees. \<open>well_weighted\<close>: the children of every internal node have non-negative
  weights with a positive sum. \<open>weights_fit\<close>: at every node that sum fits in an
  \<open>int64\<close>. \<open>conserved\<close>: the amount of every internal node is the sum of the amounts
  of its children, down to the leaves.
\<close>

fun well_weighted :: "Node \<Rightarrow> bool" where
  "well_weighted (Node name weight children allocated) \<longleftrightarrow>
     (children = [] \<or> valid_weights (map Weight children)) \<and>
     (\<forall>c\<in>set children. well_weighted c)"

fun weights_fit :: "Node \<Rightarrow> bool" where
  "weights_fit (Node name weight children allocated) \<longleftrightarrow>
     weight_sum (map Weight children) < 2 ^ 63 \<and> (\<forall>c\<in>set children. weights_fit c)"

fun conserved :: "Node \<Rightarrow> bool" where
  "conserved (Node name weight children allocated) \<longleftrightarrow>
     (children = [] \<or>
      sint (Amount allocated) = sum_list (map (\<lambda>c. sint (Amount (Allocated c))) children)) \<and>
     (\<forall>c\<in>set children. conserved c)"

text \<open>The tree of \<open>TestAllocateTree_ComplexHierarchy\<close>.\<close>

definition ceo_fund :: Node where
  "ceo_fund = NewNode ''CEO Fund'' 1
     [NewNode ''Dept A'' 1 [NewNode ''Team X'' 1 [], NewNode ''Team Y'' 1 [], NewNode ''Team Z'' 1 []],
      NewNode ''Dept B'' 1 [],
      NewNode ''Dept C'' 1 []]"

text \<open>
  Thirteen weights of which eleven tie: with a total of \<open>3\<close> the residues are
  \<open>6, 3, \<dots>, 3, 6\<close> and three units are left over.
\<close>

definition tied_weights :: "int64 list" where
  "tied_weights = [2, 1, 1, 1, 1, 1, 1, 1, 1, 1, 1, 1, 2]"

section \<open>64-bit integers and Euclidean division\<close>

lemma len64: "LENGTH(64) - 1 = 63"
  by simp

lemma sint64_bounds: "- (2 ^ 63) \<le> sint (w :: int64)" "sint (w :: int64) < 2 ^ 63"
  using sint_ge [of w] sint_lt [of w] unfolding len64 by blast+

lemma pow63_pos: "(0::int) < 2 ^ 63"
  by (rule zero_less_power) simp

lemma Int64_sint: "Int64 (sint w) = w"
  unfolding Int64_def by transfer (simp add: take_bit_signed_take_bit)

lemma sint_Int64_eq: "sint (Int64 x) = signed_take_bit 63 x"
  unfolding Int64_def sint_sbintrunc' len64 by (rule refl)

lemma sint_Int64: "- (2 ^ 63) \<le> x \<Longrightarrow> x < 2 ^ 63 \<Longrightarrow> sint (Int64 x) = x"
  unfolding sint_Int64_eq by (rule signed_take_bit_int_eq_self)

lemma sint_Int64_le_abs: "sint (Int64 x) \<le> \<bar>x\<bar>"
proof (cases "- (2 ^ 63) \<le> x")
  case True
  then have "signed_take_bit 63 x \<le> x"
    by (simp only: signed_take_bit_int_less_eq_self_iff)
  then show ?thesis unfolding sint_Int64_eq by linarith
next
  case False
  have "signed_take_bit 63 x < (2::int) ^ 63" by (rule signed_take_bit_int_less_exp)
  with False show ?thesis unfolding sint_Int64_eq by linarith
qed

lemma Int64_add: "Int64 a + Int64 b = Int64 (a + b)"
  unfolding Int64_def by (rule wi_hom_add)

lemma Int64_sub: "Int64 a - Int64 b = Int64 (a - b)"
  unfolding Int64_def by (rule wi_hom_sub)

lemma Int64_0: "Int64 0 = 0"
  unfolding Int64_def by simp

lemma Int64_1: "Int64 1 = 1"
  unfolding Int64_def by simp

lemma foldl_add_Int64:
  "foldl (\<lambda>s w. s + w) (Int64 a) ws = Int64 (a + sum_list (map sint ws))"
proof (induction ws arbitrary: a)
  case Nil
  then show ?case by simp
next
  case (Cons w ws)
  have "Int64 a + w = Int64 (a + sint w)"
    using Int64_add [of a "sint w"] by (simp only: Int64_sint)
  then show ?case using Cons.IH [of "a + sint w"] by (simp add: add.assoc)
qed

lemma sum_weights_Int64: "sum_weights ws = Int64 (sum_list (map sint ws))"
  using foldl_add_Int64 [of 0 ws] by (simp add: sum_weights_def Int64_0)

lemma big_Div_Mod: "big_Div x y * y + big_Mod x y = x"
proof -
  have "big_Div x y * y = (x div \<bar>y\<bar>) * \<bar>y\<bar>"
    by (simp add: big_Div_def sgn_if)
  then show ?thesis by (simp add: big_Mod_def)
qed

lemma big_Mod_bounds: "y \<noteq> 0 \<Longrightarrow> 0 \<le> big_Mod x y" "y \<noteq> 0 \<Longrightarrow> big_Mod x y < \<bar>y\<bar>"
  by (simp_all add: big_Mod_def)

section \<open>The passes of Split\<close>

lemma pass1_entries:
  "fst (pass1 t s i ws r) = map (\<lambda>(k, w). mk_entry t s k w) (enumerate i ws)"
  by (induction ws arbitrary: i r) (simp_all add: split_beta Let_def)

lemma pass1_remainder:
  "snd (pass1 t s i ws r) =
     Int64 (sint r - sum_list (map (\<lambda>w. big_Div (sint t * sint w) (sint s)) ws))"
proof (induction ws arbitrary: i r)
  case Nil
  then show ?case by (simp add: Int64_sint)
next
  case (Cons w ws)
  let ?q = "big_Div (sint t * sint w) (sint s)"
  have b: "base (mk_entry t s i w) = Int64 ?q"
    by (simp add: mk_entry_def NewInt_def Let_def)
  have "r - Int64 ?q = Int64 (sint r - ?q)"
    using Int64_sub [of "sint r" ?q] by (simp only: Int64_sint)
  then have "Int64 (sint (r - Int64 ?q) - x) = Int64 (sint r - ?q - x)" for x
    by (metis Int64_sint Int64_sub)
  then show ?case
    using Cons.IH [of "Suc i" "r - Int64 ?q"]
    by (simp add: split_beta Let_def b algebra_simps)
qed

lemma mk_entry_simps:
  "index (mk_entry t s i w) = i"
  "base (mk_entry t s i w) = Int64 (big_Div (sint t * sint w) (sint s))"
  "residue (mk_entry t s i w) = Int64 (big_Mod (sint t * sint w) (sint s))"
  by (simp_all add: mk_entry_def NewInt_def Let_def)

lemma pass1_length: "length (fst (pass1 t s i ws r)) = length ws"
  by (simp add: pass1_entries)

lemma pass1_nth:
  "k < length ws \<Longrightarrow> fst (pass1 t s i ws r) ! k = mk_entry t s (i + k) (ws ! k)"
  by (simp add: pass1_entries nth_enumerate_eq)

lemma pass1_index: "map index (fst (pass1 t s i ws r)) = [i..<i + length ws]"
  by (rule nth_equalityI) (simp_all add: pass1_length pass1_nth mk_entry_simps)

subsection \<open>The insertion sort sorts, and keeps ties in place\<close>

lemma set_insert_back: "set (insert_back lt x ys) = insert x (set ys)"
  by (induction ys) auto

lemma mset_insert_back: "mset (insert_back lt x ys) = add_mset x (mset ys)"
  by (induction ys) auto

lemma mset_foldl_insert_back:
  "mset (foldl (\<lambda>acc x. insert_back lt x acc) acc xs) = mset acc + mset xs"
  by (induction xs arbitrary: acc) (simp_all add: mset_insert_back)

lemma mset_insertionSort: "mset (insertionSort lt xs) = mset xs"
  by (simp add: insertionSort_def mset_foldl_insert_back)

text \<open>
  \<open>P a b\<close> reads: \<open>a\<close> may stand before \<open>b\<close>. The accumulator of the fold is the
  sorted prefix, last element first.
\<close>

lemma sorted_insert_back:
  assumes "transp P"
    and "sorted_wrt (\<lambda>a b. P b a) ys"
    and "\<forall>y\<in>set ys. (lt x y \<longrightarrow> P x y) \<and> (\<not> lt x y \<longrightarrow> P y x)"
  shows "sorted_wrt (\<lambda>a b. P b a) (insert_back lt x ys)"
  using assms(2,3)
proof (induction ys)
  case Nil
  then show ?case by simp
next
  case (Cons y ys)
  show ?case
  proof (cases "lt x y")
    case True
    then show ?thesis using Cons by (auto simp: set_insert_back)
  next
    case False
    then have "P y x" using Cons.prems by simp
    moreover have "\<forall>z\<in>set ys. P z y" using Cons.prems by simp
    ultimately have "\<forall>z\<in>set ys. P z x" using assms(1) by (blast dest: transpD)
    then show ?thesis using False Cons.prems \<open>P y x\<close> by simp
  qed
qed

lemma sorted_foldl_insert_back:
  assumes "transp P"
  shows "sorted_wrt (\<lambda>a b. P b a) acc \<Longrightarrow>
    \<forall>x\<in>set xs. \<forall>y\<in>set acc. (lt x y \<longrightarrow> P x y) \<and> (\<not> lt x y \<longrightarrow> P y x) \<Longrightarrow>
    sorted_wrt (\<lambda>y x. (lt x y \<longrightarrow> P x y) \<and> (\<not> lt x y \<longrightarrow> P y x)) xs \<Longrightarrow>
    sorted_wrt (\<lambda>a b. P b a) (foldl (\<lambda>acc x. insert_back lt x acc) acc xs)"
proof (induction xs arbitrary: acc)
  case Nil
  then show ?case by simp
next
  case (Cons x xs)
  have 1: "sorted_wrt (\<lambda>a b. P b a) (insert_back lt x acc)"
    using sorted_insert_back [OF assms Cons.prems(1)] Cons.prems(2) by simp
  have 2: "\<forall>z\<in>set xs. \<forall>y\<in>set (insert_back lt x acc). (lt z y \<longrightarrow> P z y) \<and> (\<not> lt z y \<longrightarrow> P y z)"
    using Cons.prems(2,3) by (auto simp: set_insert_back)
  have 3: "sorted_wrt (\<lambda>y x. (lt x y \<longrightarrow> P x y) \<and> (\<not> lt x y \<longrightarrow> P y x)) xs"
    using Cons.prems(3) by simp
  show ?case using Cons.IH [OF 1 2 3] by simp
qed

lemma sorted_insertionSort:
  assumes "transp P"
    and "sorted_wrt (\<lambda>y x. (lt x y \<longrightarrow> P x y) \<and> (\<not> lt x y \<longrightarrow> P y x)) xs"
  shows "sorted_wrt P (insertionSort lt xs)"
proof -
  have "sorted_wrt (\<lambda>a b. P b a) (foldl (\<lambda>acc x. insert_back lt x acc) [] xs)"
    using sorted_foldl_insert_back [OF assms(1), of "[]" xs lt] assms(2) by simp
  then show ?thesis by (simp add: insertionSort_def sorted_wrt_rev)
qed

lemma residue_order_transp: "transp (\<lambda>a b. \<not> residue_gt b a)"
  by (auto simp: transp_def residue_gt_def)

lemma insertionSort_sorts_slice: "sorts_slice insertionSort residue_gt"
proof -
  have "sorted_wrt (\<lambda>a b. \<not> residue_gt b a) (insertionSort residue_gt xs)" for xs
    by (rule sorted_insertionSort [OF residue_order_transp])
       (auto simp: sorted_wrt_iff_nth_less residue_gt_def)
  then show ?thesis by (simp add: sorts_slice_def mset_insertionSort)
qed

lemma sorter_sorts:
  assumes "sorts_slice srt residue_gt"
  shows "mset (srt residue_gt xs) = mset xs"
    and "sorted_wrt (\<lambda>a b. \<not> residue_gt b a) (srt residue_gt xs)"
  using assms by (simp_all add: sorts_slice_def)

lemma add_units_Some:
  "r \<le> int (length es) \<Longrightarrow>
     add_units r es = Some (map bump (take (nat r) es) @ drop (nat r) es)"
proof (induction es arbitrary: r)
  case Nil
  then show ?case by simp
next
  case (Cons e es)
  show ?case
  proof (cases "0 < r")
    case True
    then have "nat r = Suc (nat (r - 1))" by simp
    moreover have "r - 1 \<le> int (length es)" using Cons.prems by simp
    ultimately show ?thesis using True Cons.IH [of "r - 1"] by (simp add: bump_def)
  next
    case False
    then show ?thesis by simp
  qed
qed

lemma add_units_None: "int (length es) < r \<Longrightarrow> add_units r es = None"
  by (induction es arbitrary: r) auto

lemma pass3_Some:
  "distinct (map index es) \<Longrightarrow> \<forall>e\<in>set es. index e < length fp \<Longrightarrow>
     \<exists>fp'. pass3 es fp = Some fp' \<and> length fp' = length fp \<and>
       (\<forall>e\<in>set es. fp' ! index e = base e)"
proof (induction es arbitrary: fp)
  case Nil
  then show ?case by simp
next
  case (Cons e es)
  let ?fp = "fp[index e := base e]"
  have d: "distinct (map index es)" and b: "\<forall>x\<in>set es. index x < length ?fp"
    using Cons.prems by simp_all
  obtain fp' where fp': "pass3 es ?fp = Some fp'" "length fp' = length ?fp"
    "\<forall>x\<in>set es. fp' ! index x = base x"
    using Cons.IH [OF d b] by blast
  have keep: "pass3 es g = Some g' \<Longrightarrow> k \<notin> index ` set es \<Longrightarrow> g' ! k = g ! k" for g g' k
  proof (induction es arbitrary: g)
    case Nil
    then show ?case by simp
  next
    case (Cons x xs)
    then show ?case by (auto split: if_splits)
  qed
  have "index e \<notin> index ` set es" using Cons.prems(1) by auto
  then have "fp' ! index e = ?fp ! index e" using keep [OF fp'(1)] by blast
  also have "\<dots> = base e" using Cons.prems(2) by simp
  finally show ?case using fp' Cons.prems(2) by simp
qed

subsection \<open>Exact shares and residues\<close>

lemma sum_div_mod:
  "(\<Sum>w\<leftarrow>ws. T * f w) =
     S * (\<Sum>w\<leftarrow>ws. big_Div (T * f w) S) + (\<Sum>w\<leftarrow>ws. big_Mod (T * f w) S)"
proof (induction ws)
  case Nil
  then show ?case by simp
next
  case (Cons w ws)
  have "T * f w = S * big_Div (T * f w) S + big_Mod (T * f w) S"
    using big_Div_Mod [of "T * f w" S] by (simp add: mult.commute)
  then show ?case using Cons.IH by (simp add: algebra_simps)
qed

lemma units_times_sum:
  assumes "sum_list (map f ws) = S"
  shows "S * (T - (\<Sum>w\<leftarrow>ws. big_Div (T * f w) S)) = (\<Sum>w\<leftarrow>ws. big_Mod (T * f w) S)"
proof -
  have "(\<Sum>w\<leftarrow>ws. T * f w) = T * S"
    using assms by (simp add: sum_list_const_mult)
  then show ?thesis using sum_div_mod [of T f ws S] by (simp add: algebra_simps)
qed

lemma sum_mod_bounds:
  assumes "S \<noteq> 0"
  shows "0 \<le> (\<Sum>w\<leftarrow>ws. big_Mod (T * f w) S)"
    and "(\<Sum>w\<leftarrow>ws. big_Mod (T * f w) S) \<le> int (length ws) * (\<bar>S\<bar> - 1)"
proof -
  show "0 \<le> (\<Sum>w\<leftarrow>ws. big_Mod (T * f w) S)"
    using assms by (induction ws) (simp_all add: big_Mod_bounds)
  show "(\<Sum>w\<leftarrow>ws. big_Mod (T * f w) S) \<le> int (length ws) * (\<bar>S\<bar> - 1)"
  proof (induction ws)
    case Nil
    then show ?case by simp
  next
    case (Cons w ws)
    have "big_Mod (T * f w) S \<le> \<bar>S\<bar> - 1"
      using big_Mod_bounds(2) [OF assms, of "T * f w"] by simp
    then show ?case using Cons.IH by (simp add: algebra_simps)
  qed
qed

lemma units_abs_le:
  assumes "S \<noteq> 0" and "sum_list (map f ws) = S"
  shows "\<bar>T - (\<Sum>w\<leftarrow>ws. big_Div (T * f w) S)\<bar> \<le> int (length ws)"
proof -
  let ?u = "T - (\<Sum>w\<leftarrow>ws. big_Div (T * f w) S)"
  let ?R = "\<Sum>w\<leftarrow>ws. big_Mod (T * f w) S"
  have "\<bar>S\<bar> * \<bar>?u\<bar> = \<bar>?R\<bar>"
    using units_times_sum [OF assms(2), of T] by (simp add: abs_mult [symmetric])
  also have "\<dots> \<le> int (length ws) * (\<bar>S\<bar> - 1)"
    using sum_mod_bounds [OF assms(1), of T f ws] by simp
  also have "\<dots> \<le> int (length ws) * \<bar>S\<bar>"
    by (simp add: mult_left_mono)
  finally have "\<bar>S\<bar> * \<bar>?u\<bar> \<le> \<bar>S\<bar> * int (length ws)" by (simp add: mult.commute)
  then show ?thesis using assms(1) by (simp add: mult_le_cancel_left)
qed

section \<open>Split on valid weights\<close>

lemma index_bump: "index (bump e) = index e" and base_bump: "base (bump e) = base e + 1"
  by (simp_all add: bump_def)

lemma pass3_ranked:
  assumes perm: "mset rk = mset es0" and idx: "map index es0 = [0..<n]"
  shows "\<exists>fp. pass3 (map bump (take k rk) @ drop k rk) (replicate n 0) = Some fp \<and>
           length fp = n \<and>
           (\<forall>e\<in>set (take k rk). fp ! index e = base e + 1) \<and>
           (\<forall>e\<in>set (drop k rk). fp ! index e = base e) \<and>
           mset fp = mset (map base (map bump (take k rk) @ drop k rk))"
proof -
  let ?bl = "map bump (take k rk) @ drop k rk"
  have mi: "mset (map index rk) = mset [0..<n]"
    using perm idx by (metis mset_map)
  have ib: "map index ?bl = map index rk"
  proof -
    have "map index ?bl = map index (take k rk) @ map index (drop k rk)"
      by (simp add: index_bump comp_def)
    also have "\<dots> = map index (take k rk @ drop k rk)"
      by (simp only: map_append)
    finally show ?thesis by (simp only: append_take_drop_id)
  qed
  have d: "distinct (map index ?bl)"
    unfolding ib using mi by (metis distinct_upt mset_eq_imp_distinct_iff)
  have "set (map index ?bl) = {0..<n}"
    unfolding ib using mi by (metis mset_eq_setD set_upt)
  then have b: "\<forall>e\<in>set ?bl. index e < length (replicate n (0::int64))"
    by (metis atLeastLessThan_iff length_replicate imageI set_map)
  obtain fp where fp: "pass3 ?bl (replicate n 0) = Some fp" "length fp = n"
    "\<forall>e\<in>set ?bl. fp ! index e = base e"
    using pass3_Some [OF d b] by auto
  have 1: "\<forall>e\<in>set (take k rk). fp ! index e = base e + 1"
  proof
    fix e assume "e \<in> set (take k rk)"
    then have "bump e \<in> set ?bl" by simp
    then show "fp ! index e = base e + 1" using fp(3) index_bump base_bump by metis
  qed
  have 2: "\<forall>e\<in>set (drop k rk). fp ! index e = base e"
    using fp(3) by simp
  have "fp = map (\<lambda>i. fp ! i) [0..<n]"
    using fp(2) map_nth [of fp] by simp
  then have "mset fp = image_mset ((!) fp) (mset [0..<n])"
    by (metis mset_map)
  also have "\<dots> = image_mset ((!) fp) (mset (map index ?bl))"
    unfolding ib mi ..
  also have "\<dots> = mset (map (\<lambda>e. fp ! index e) ?bl)"
    by (simp add: comp_def multiset.map_comp)
  also have "map (\<lambda>e. fp ! index e) ?bl = map base ?bl"
    using fp(3) by (simp only: map_eq_conv)
  finally show ?thesis using fp 1 2 by blast
qed

lemma sint_sum_weights:
  "- (2 ^ 63) \<le> weight_sum ws \<Longrightarrow> weight_sum ws < 2 ^ 63 \<Longrightarrow>
     sint (sum_weights ws) = weight_sum ws"
  unfolding sum_weights_Int64 weight_sum_def by (rule sint_Int64)

lemma sum_weights_eq_0_iff:
  "- (2 ^ 63) \<le> weight_sum ws \<Longrightarrow> weight_sum ws < 2 ^ 63 \<Longrightarrow>
     sum_weights ws = 0 \<longleftrightarrow> weight_sum ws = 0"
  using sint_sum_weights [of ws] by (metis signed_word_eqI sint_0)

lemma units_eq:
  "units tot ws =
     sint (Int64 (sint (Amount tot) -
       (\<Sum>w\<leftarrow>ws. big_Div (sint (Amount tot) * sint w) (sint (sum_weights ws)))))"
  by (simp only: units_def pass1_remainder)

lemma entries_of_index: "map index (entries_of tot ws) = [0..<length ws]"
  using pass1_index [of "Amount tot" "sum_weights ws" 0 ws "Amount tot"]
  by (simp add: entries_of_def)

lemma ranked_eq: "ranked srt (Amount tot) ws = srt residue_gt (entries_of tot ws)"
  by (simp add: ranked_def entries_of_def)

lemma ranked_perm:
  "sorts_slice srt residue_gt \<Longrightarrow> mset (ranked srt (Amount tot) ws) = mset (entries_of tot ws)"
  by (simp add: ranked_eq sorter_sorts)

lemma ranked_length:
  "sorts_slice srt residue_gt \<Longrightarrow> length (ranked srt (Amount tot) ws) = length ws"
  using ranked_perm [of srt tot ws] entries_of_index [of tot ws]
  by (metis length_map length_upt mset_eq_length minus_nat.diff_0)

lemma Split_Inr:
  assumes ne: "ws \<noteq> []" and nz: "sum_weights ws \<noteq> 0"
    and srt: "sorts_slice srt residue_gt"
    and le: "units tot ws \<le> int (length ws)"
  shows "\<exists>fp. Split srt tot ws = Inr (map (\<lambda>amt. New amt (Currency tot)) fp) \<and>
           length fp = length ws \<and>
           (\<forall>e\<in>set (take (nat (units tot ws)) (ranked srt (Amount tot) ws)).
              fp ! index e = base e + 1) \<and>
           (\<forall>e\<in>set (drop (nat (units tot ws)) (ranked srt (Amount tot) ws)).
              fp ! index e = base e) \<and>
           mset fp = mset (map base (map bump (take (nat (units tot ws)) (ranked srt (Amount tot) ws))
                        @ drop (nat (units tot ws)) (ranked srt (Amount tot) ws)))"
proof -
  let ?rk = "ranked srt (Amount tot) ws" and ?k = "nat (units tot ws)"
  have "units tot ws \<le> int (length ?rk)"
    using le ranked_length [OF srt] by simp
  then have au: "add_units (units tot ws) ?rk = Some (map bump (take ?k ?rk) @ drop ?k ?rk)"
    by (rule add_units_Some)
  obtain fp where fp: "pass3 (map bump (take ?k ?rk) @ drop ?k ?rk) (replicate (length ws) 0) = Some fp"
    "length fp = length ws"
    "\<forall>e\<in>set (take ?k ?rk). fp ! index e = base e + 1"
    "\<forall>e\<in>set (drop ?k ?rk). fp ! index e = base e"
    "mset fp = mset (map base (map bump (take ?k ?rk) @ drop ?k ?rk))"
    using pass3_ranked [OF ranked_perm [OF srt] entries_of_index, where k = ?k] by blast
  have "Split srt tot ws = Inr (map (\<lambda>amt. New amt (Currency tot)) fp)"
    using ne nz au fp(1) by (simp add: Split_def Let_def units_def [symmetric])
  then show ?thesis using fp by blast
qed

lemma units_le_length:
  assumes "weight_sum ws \<noteq> 0" and "- (2 ^ 63) \<le> weight_sum ws" and "weight_sum ws < 2 ^ 63"
  shows "units tot ws \<le> int (length ws)"
proof -
  have S: "sint (sum_weights ws) = weight_sum ws"
    using assms(2,3) by (rule sint_sum_weights)
  have "units tot ws \<le> \<bar>sint (Amount tot) -
       (\<Sum>w\<leftarrow>ws. big_Div (sint (Amount tot) * sint w) (weight_sum ws))\<bar>"
    unfolding units_eq S by (rule sint_Int64_le_abs)
  also have "\<dots> \<le> int (length ws)"
    using units_abs_le [OF assms(1), of sint ws "sint (Amount tot)"] by (simp add: weight_sum_def)
  finally show ?thesis .
qed

lemma big_Div_pos: "0 < S \<Longrightarrow> big_Div x S = x div S"
  by (simp add: big_Div_def)

lemma big_Mod_pos: "0 < S \<Longrightarrow> big_Mod x S = x mod S"
  by (simp add: big_Mod_def)

lemma member_le_sum_list_int:
  "\<forall>x\<in>set xs. (0::int) \<le> x \<Longrightarrow> y \<in> set xs \<Longrightarrow> y \<le> sum_list xs"
proof (induction xs)
  case Nil
  then show ?case by simp
next
  case (Cons x xs)
  have "0 \<le> sum_list xs" using Cons.prems(1) by (simp add: sum_list_nonneg)
  then show ?case using Cons by auto
qed

lemma valid_weight_le:
  assumes "valid_weights ws" and "w \<in> set ws"
  shows "0 \<le> sint w" and "sint w \<le> weight_sum ws"
proof -
  show "0 \<le> sint w" using assms by (simp add: valid_weights_def)
  have "\<forall>x\<in>set (map sint ws). 0 \<le> x" using assms(1) by (simp add: valid_weights_def)
  moreover have "sint w \<in> set (map sint ws)" using assms(2) by simp
  ultimately show "sint w \<le> weight_sum ws"
    unfolding weight_sum_def by (rule member_le_sum_list_int)
qed

lemma share_bounds:
  assumes "0 < S" and "0 \<le> w" and "w \<le> S"
  shows "0 \<le> T \<Longrightarrow> 0 \<le> big_Div (T * w) S \<and> big_Div (T * w) S \<le> T"
    and "T \<le> 0 \<Longrightarrow> T \<le> big_Div (T * w) S \<and> big_Div (T * w) S \<le> 0"
proof -
  have c: "(T * S) div S = T" using assms(1) by simp
  {
    assume T: "0 \<le> T"
    have "0 \<le> T * w" using T assms(2) by simp
    then have 1: "0 \<le> (T * w) div S" using assms(1) by (simp add: pos_imp_zdiv_nonneg_iff)
    have "T * w \<le> T * S" using T assms(3) by (simp add: mult_left_mono)
    then have "(T * w) div S \<le> (T * S) div S" using assms(1) by (rule zdiv_mono1)
    then show "0 \<le> big_Div (T * w) S \<and> big_Div (T * w) S \<le> T"
      using 1 c by (simp add: big_Div_pos [OF assms(1)])
  }
  {
    assume T: "T \<le> 0"
    have "T * w \<le> 0" using T assms(2) by (simp add: mult_nonpos_nonneg)
    then have "(T * w) div S \<le> 0 div S" using assms(1) by (rule zdiv_mono1)
    then have 1: "(T * w) div S \<le> 0" by simp
    have "T * S \<le> T * w" using T assms(3) by (simp add: mult_left_mono_neg)
    then have "(T * S) div S \<le> (T * w) div S" using assms(1) by (rule zdiv_mono1)
    then show "T \<le> big_Div (T * w) S \<and> big_Div (T * w) S \<le> 0"
      using 1 c by (simp add: big_Div_pos [OF assms(1)])
  }
qed

lemma residue_le_weight:
  assumes "0 < S" and "0 \<le> w"
  shows "big_Mod (T * w) S \<le> w * (S - 1)"
proof (cases "w = 0")
  case True
  then show ?thesis by (simp add: big_Mod_def)
next
  case False
  then have "1 \<le> w" using assms(2) by simp
  then have "1 * (S - 1) \<le> w * (S - 1)" using assms(1) by (intro mult_right_mono) simp_all
  moreover have "big_Mod (T * w) S \<le> S - 1"
    using big_Mod_bounds(2) [of S "T * w"] assms(1) by simp
  ultimately show ?thesis by simp
qed

lemma sum_residue_le:
  assumes "0 < S" and "\<forall>w\<in>set ws. 0 \<le> f w"
  shows "(\<Sum>w\<leftarrow>ws. big_Mod (T * f w) S) \<le> sum_list (map f ws) * (S - 1)"
  using assms(2)
proof (induction ws)
  case Nil
  then show ?case by simp
next
  case (Cons w ws)
  have "big_Mod (T * f w) S \<le> f w * (S - 1)"
    using residue_le_weight [OF assms(1)] Cons.prems by simp
  then show ?case using Cons by (simp add: algebra_simps)
qed

text \<open>The number of units left over, for valid weights whose sum fits.\<close>

lemma valid_units:
  fixes tot :: Money and ws :: "int64 list"
  assumes v: "valid_weights ws" and fit: "weight_sum ws < 2 ^ 63"
  defines "T \<equiv> sint (Amount tot)" and "S \<equiv> weight_sum ws"
  defines "u \<equiv> T - (\<Sum>w\<leftarrow>ws. big_Div (T * sint w) S)"
  shows "units tot ws = u" and "0 \<le> u" and "u \<le> int (length ws)"
    and "S * u = (\<Sum>w\<leftarrow>ws. big_Mod (T * sint w) S)"
proof -
  have Spos: "0 < S" using v by (simp add: valid_weights_def S_def)
  have lo: "- (2 ^ 63) \<le> weight_sum ws"
    using Spos pow63_pos unfolding S_def by linarith
  have Sw: "sint (sum_weights ws) = S"
    unfolding S_def using lo fit by (rule sint_sum_weights)
  show Su: "S * u = (\<Sum>w\<leftarrow>ws. big_Mod (T * sint w) S)"
    unfolding u_def by (rule units_times_sum) (simp add: S_def weight_sum_def)
  have "0 \<le> (\<Sum>w\<leftarrow>ws. big_Mod (T * sint w) S)"
    using Spos by (intro sum_mod_bounds(1)) simp
  then have "0 \<le> S * u" using Su by simp
  then show u0: "0 \<le> u" using Spos by (simp add: zero_le_mult_iff)
  have "\<forall>w\<in>set ws. 0 \<le> sint w" using v by (simp add: valid_weights_def)
  then have "(\<Sum>w\<leftarrow>ws. big_Mod (T * sint w) S) \<le> sum_list (map sint ws) * (S - 1)"
    by (rule sum_residue_le [OF Spos])
  then have "S * u \<le> S * (S - 1)" using Su by (simp add: S_def weight_sum_def)
  then have "u \<le> S - 1" using Spos by (simp add: mult_le_cancel_left)
  then have "u < 2 ^ 63" using fit unfolding S_def by linarith
  moreover have "- (2 ^ 63) \<le> u" using u0 pow63_pos by linarith
  ultimately have "sint (Int64 u) = u" by (intro sint_Int64)
  then show uu: "units tot ws = u"
    unfolding units_eq Sw u_def T_def .
  have "weight_sum ws \<noteq> 0" using Spos S_def by simp
  from units_le_length [OF this lo fit, of tot] show "u \<le> int (length ws)"
    using uu by simp
qed

lemma entries_of_nth:
  "i < length ws \<Longrightarrow>
     entries_of tot ws ! i = mk_entry (Amount tot) (sum_weights ws) i (ws ! i)"
  using pass1_nth [of i ws "Amount tot" "sum_weights ws" 0 "Amount tot"]
  by (simp add: entries_of_def)

lemma entries_of_length: "length (entries_of tot ws) = length ws"
  by (simp add: entries_of_def pass1_length)

lemma sint_succ: "sint (b :: int64) + 1 < 2 ^ 63 \<Longrightarrow> sint (b + 1) = sint b + 1"
proof -
  assume a: "sint b + 1 < 2 ^ 63"
  have "b + 1 = Int64 (sint b + 1)"
    using Int64_add [of "sint b" 1] by (simp only: Int64_sint Int64_1)
  moreover have "- (2 ^ 63) \<le> sint b + 1"
    using sint64_bounds(1) [of b] by linarith
  ultimately show ?thesis using sint_Int64 [OF _ a] by simp
qed

lemma valid_entries:
  fixes tot :: Money and ws :: "int64 list"
  assumes v: "valid_weights ws" and fit: "weight_sum ws < 2 ^ 63"
  defines "T \<equiv> sint (Amount tot)" and "S \<equiv> weight_sum ws"
  shows "map (\<lambda>e. sint (base e)) (entries_of tot ws) = map (\<lambda>w. big_Div (T * sint w) S) ws"
    and "map (\<lambda>e. sint (residue e)) (entries_of tot ws) = map (\<lambda>w. big_Mod (T * sint w) S) ws"
proof -
  have Spos: "0 < S" using v by (simp add: valid_weights_def S_def)
  have lo: "- (2 ^ 63) \<le> weight_sum ws"
    using Spos pow63_pos unfolding S_def by linarith
  have Sw: "sint (sum_weights ws) = S"
    unfolding S_def using lo fit by (rule sint_sum_weights)
  have Tb: "- (2 ^ 63) \<le> T" "T < 2 ^ 63"
    unfolding T_def by (rule sint64_bounds)+
  have q: "sint (Int64 (big_Div (T * sint w) S)) = big_Div (T * sint w) S" if "w \<in> set ws" for w
  proof -
    have w: "0 \<le> sint w" "sint w \<le> S"
      using valid_weight_le [OF v that] by (simp_all add: S_def)
    have "- (2 ^ 63) \<le> big_Div (T * sint w) S \<and> big_Div (T * sint w) S < 2 ^ 63"
      using share_bounds [OF Spos w, of T] Tb pow63_pos by (cases "0 \<le> T") linarith+
    then show ?thesis by (simp only: sint_Int64)
  qed
  have r: "sint (Int64 (big_Mod (T * sint w) S)) = big_Mod (T * sint w) S" for w :: int64
  proof -
    have "0 \<le> big_Mod (T * sint w) S" "big_Mod (T * sint w) S < \<bar>S\<bar>"
      using big_Mod_bounds [of S "T * sint w"] Spos by simp_all
    then have "- (2 ^ 63) \<le> big_Mod (T * sint w) S \<and> big_Mod (T * sint w) S < 2 ^ 63"
      using Spos fit pow63_pos unfolding S_def by linarith
    then show ?thesis by (simp only: sint_Int64)
  qed
  show "map (\<lambda>e. sint (base e)) (entries_of tot ws) = map (\<lambda>w. big_Div (T * sint w) S) ws"
  proof (rule nth_equalityI)
    show "length (map (\<lambda>e. sint (base e)) (entries_of tot ws)) =
          length (map (\<lambda>w. big_Div (T * sint w) S) ws)"
      by (simp add: entries_of_length)
  next
    fix i assume "i < length (map (\<lambda>e. sint (base e)) (entries_of tot ws))"
    then have i: "i < length ws" by (simp add: entries_of_length)
    then have "ws ! i \<in> set ws" by simp
    from q [OF this] show "map (\<lambda>e. sint (base e)) (entries_of tot ws) ! i =
          map (\<lambda>w. big_Div (T * sint w) S) ws ! i"
      using i by (simp add: entries_of_length entries_of_nth mk_entry_simps Sw T_def)
  qed
  show "map (\<lambda>e. sint (residue e)) (entries_of tot ws) = map (\<lambda>w. big_Mod (T * sint w) S) ws"
  proof (rule nth_equalityI)
    show "length (map (\<lambda>e. sint (residue e)) (entries_of tot ws)) =
          length (map (\<lambda>w. big_Mod (T * sint w) S) ws)"
      by (simp add: entries_of_length)
  next
    fix i assume "i < length (map (\<lambda>e. sint (residue e)) (entries_of tot ws))"
    then have i: "i < length ws" by (simp add: entries_of_length)
    show "map (\<lambda>e. sint (residue e)) (entries_of tot ws) ! i =
          map (\<lambda>w. big_Mod (T * sint w) S) ws ! i"
      using i r [of "ws ! i"]
      by (simp add: entries_of_length entries_of_nth mk_entry_simps Sw T_def)
  qed
qed

lemma valid_base_bounds:
  assumes v: "valid_weights ws" and fit: "weight_sum ws < 2 ^ 63"
    and e: "e \<in> set (entries_of tot ws)"
  shows "0 \<le> sint (Amount tot) \<Longrightarrow> 0 \<le> sint (base e)"
    and "sint (Amount tot) \<le> 0 \<Longrightarrow> sint (base e) \<le> 0"
proof -
  have Spos: "0 < weight_sum ws" using v by (simp add: valid_weights_def)
  have "sint (base e) \<in> set (map (\<lambda>e. sint (base e)) (entries_of tot ws))"
    using e by simp
  then obtain w where w: "w \<in> set ws"
    "sint (base e) = big_Div (sint (Amount tot) * sint w) (weight_sum ws)"
    unfolding valid_entries(1) [OF v fit] by auto
  have ww: "0 \<le> sint w" "sint w \<le> weight_sum ws"
    using valid_weight_le [OF v w(1)] by simp_all
  show "0 \<le> sint (Amount tot) \<Longrightarrow> 0 \<le> sint (base e)"
    using share_bounds(1) [OF Spos ww] w(2) by simp
  show "sint (Amount tot) \<le> 0 \<Longrightarrow> sint (base e) \<le> 0"
    using share_bounds(2) [OF Spos ww] w(2) by simp
qed

lemma valid_base_sum:
  assumes v: "valid_weights ws" and fit: "weight_sum ws < 2 ^ 63"
  shows "(\<Sum>e\<leftarrow>entries_of tot ws. sint (base e)) + units tot ws = sint (Amount tot)"
  using valid_units(1) [OF v fit, of tot] valid_entries(1) [OF v fit, of tot]
  by simp

lemma valid_bump_no_wrap:
  assumes v: "valid_weights ws" and fit: "weight_sum ws < 2 ^ 63"
    and e: "e \<in> set (entries_of tot ws)" and u: "1 \<le> units tot ws"
  shows "sint (base e + 1) = sint (base e) + 1"
proof (rule sint_succ)
  show "sint (base e) + 1 < 2 ^ 63"
  proof (cases "0 \<le> sint (Amount tot)")
    case True
    then have "\<forall>x\<in>set (map (\<lambda>e. sint (base e)) (entries_of tot ws)). 0 \<le> x"
      using valid_base_bounds(1) [OF v fit] by simp
    moreover have "sint (base e) \<in> set (map (\<lambda>e. sint (base e)) (entries_of tot ws))"
      using e by simp
    ultimately have "sint (base e) \<le> (\<Sum>e\<leftarrow>entries_of tot ws. sint (base e))"
      by (rule member_le_sum_list_int)
    then have "sint (base e) + 1 \<le> sint (Amount tot)"
      using valid_base_sum [OF v fit, of tot] u by linarith
    then show ?thesis using sint64_bounds(2) [of "Amount tot"] by linarith
  next
    case False
    then have "sint (base e) \<le> 0"
      using valid_base_bounds(2) [OF v fit e] by simp
    moreover have "(1::int) < 2 ^ 63" by (rule one_less_power) simp_all
    ultimately show ?thesis by linarith
  qed
qed

lemma part_values_New: "part_values (map (\<lambda>amt. New amt c) fp) = map sint fp"
  by (simp add: part_values_def New_def Amount_def comp_def)

text \<open>What Split returns for valid weights whose sum fits in an int64.\<close>

lemma Split_valid:
  fixes tot :: Money and ws :: "int64 list" and srt :: "entry sorter"
  assumes v: "valid_weights ws" and fit: "weight_sum ws < 2 ^ 63"
    and srt: "sorts_slice srt residue_gt"
  defines "rk \<equiv> ranked srt (Amount tot) ws" and "k \<equiv> nat (units tot ws)"
  shows "\<exists>fp. Split srt tot ws = Inr (map (\<lambda>amt. New amt (Currency tot)) fp) \<and>
           length fp = length ws \<and>
           (\<forall>e\<in>set (take k rk). sint (fp ! index e) = sint (base e) + 1) \<and>
           (\<forall>e\<in>set (drop k rk). sint (fp ! index e) = sint (base e)) \<and>
           sum_list (map sint fp) = sint (Amount tot) \<and>
           (0 \<le> sint (Amount tot) \<longrightarrow> (\<forall>a\<in>set fp. 0 \<le> sint a))"
proof -
  have Spos: "0 < weight_sum ws" using v by (simp add: valid_weights_def)
  have lo: "- (2 ^ 63) \<le> weight_sum ws"
    using Spos pow63_pos by linarith
  have ne: "ws \<noteq> []" using v by (simp add: valid_weights_def)
  have nz: "sum_weights ws \<noteq> 0"
    using sum_weights_eq_0_iff [OF lo fit] Spos by simp
  have u0: "0 \<le> units tot ws" and un: "units tot ws \<le> int (length ws)"
    using valid_units [OF v fit, of tot] by simp_all
  obtain fp where fp: "Split srt tot ws = Inr (map (\<lambda>amt. New amt (Currency tot)) fp)"
    "length fp = length ws"
    "\<forall>e\<in>set (take k rk). fp ! index e = base e + 1"
    "\<forall>e\<in>set (drop k rk). fp ! index e = base e"
    "mset fp = mset (map base (map bump (take k rk) @ drop k rk))"
    using Split_Inr [OF ne nz srt un] unfolding rk_def k_def by blast
  have set_rk: "set rk = set (entries_of tot ws)"
    unfolding rk_def using ranked_perm [OF srt] by (rule mset_eq_setD)
  have len_rk: "length rk = length ws"
    unfolding rk_def by (rule ranked_length [OF srt])
  have tk: "sint (base e + 1) = sint (base e) + 1" if "e \<in> set (take k rk)" for e
  proof -
    have "e \<in> set (entries_of tot ws)" using that set_rk by (auto dest: in_set_takeD)
    moreover have "1 \<le> units tot ws"
      using that unfolding k_def by (cases "units tot ws \<le> 0") simp_all
    ultimately show ?thesis by (rule valid_bump_no_wrap [OF v fit])
  qed
  have 1: "\<forall>e\<in>set (take k rk). sint (fp ! index e) = sint (base e) + 1"
    using fp(3) tk by simp
  have 2: "\<forall>e\<in>set (drop k rk). sint (fp ! index e) = sint (base e)"
    using fp(4) by simp
  have "mset (map sint fp) = mset (map sint (map base (map bump (take k rk) @ drop k rk)))"
    using fp(5) by (simp only: mset_map)
  then have "sum_mset (mset (map sint fp)) =
      sum_mset (mset (map sint (map base (map bump (take k rk) @ drop k rk))))"
    by (rule arg_cong)
  then have "sum_list (map sint fp) =
      sum_list (map sint (map base (map bump (take k rk) @ drop k rk)))"
    by (simp only: sum_mset_sum_list)
  also have "\<dots> = (\<Sum>e\<leftarrow>take k rk. sint (base e + 1)) + (\<Sum>e\<leftarrow>drop k rk. sint (base e))"
    by (simp add: comp_def base_bump)
  also have "(\<Sum>e\<leftarrow>take k rk. sint (base e + 1)) = (\<Sum>e\<leftarrow>take k rk. sint (base e) + 1)"
    using tk by (simp cong: map_cong)
  also have "\<dots> = (\<Sum>e\<leftarrow>take k rk. sint (base e)) + int (length (take k rk))"
    by (simp add: sum_list_addf sum_list_triv)
  also have "length (take k rk) = k"
    using un len_rk unfolding k_def by simp
  also have "(\<Sum>e\<leftarrow>take k rk. sint (base e)) + int k + (\<Sum>e\<leftarrow>drop k rk. sint (base e)) =
      (\<Sum>e\<leftarrow>take k rk @ drop k rk. sint (base e)) + int k"
    by (simp only: map_append sum_list_append)
  also have "take k rk @ drop k rk = rk" by simp
  also have "(\<Sum>e\<leftarrow>rk. sint (base e)) = (\<Sum>e\<leftarrow>entries_of tot ws. sint (base e))"
  proof -
    have "mset (map (\<lambda>e. sint (base e)) rk) = mset (map (\<lambda>e. sint (base e)) (entries_of tot ws))"
      unfolding rk_def using ranked_perm [OF srt, of tot ws] by (simp only: mset_map)
    then have "sum_mset (mset (map (\<lambda>e. sint (base e)) rk)) =
        sum_mset (mset (map (\<lambda>e. sint (base e)) (entries_of tot ws)))"
      by (rule arg_cong)
    then show ?thesis by (simp only: sum_mset_sum_list)
  qed
  also have "int k = units tot ws" using u0 unfolding k_def by simp
  finally have 3: "sum_list (map sint fp) = sint (Amount tot)"
    using valid_base_sum [OF v fit, of tot] by simp
  have 4: "\<forall>a\<in>set fp. 0 \<le> sint a" if T: "0 \<le> sint (Amount tot)"
  proof
    fix a assume "a \<in> set fp"
    then have "a \<in> set (map base (map bump (take k rk) @ drop k rk))"
      using mset_eq_setD [OF fp(5)] by simp
    then consider e where "e \<in> set (take k rk)" "a = base e + 1"
      | e where "e \<in> set (drop k rk)" "a = base e"
      by (auto simp: base_bump)
    then show "0 \<le> sint a"
    proof cases
      case 1
      then have "e \<in> set (entries_of tot ws)" using set_rk by (auto dest: in_set_takeD)
      then have "0 \<le> sint (base e)" using valid_base_bounds(1) [OF v fit _ T] by simp
      then show ?thesis using tk [OF 1(1)] 1(2) by simp
    next
      case 2
      then have "e \<in> set (entries_of tot ws)" using set_rk by (auto dest: in_set_dropD)
      then show ?thesis using valid_base_bounds(1) [OF v fit _ T] 2(2) by simp
    qed
  qed
  show ?thesis using fp(1,2) 1 2 3 4 by blast
qed

lemma ranked_take_drop:
  assumes srt: "sorts_slice srt residue_gt"
    and a: "a \<in> set (take k (ranked srt (Amount tot) ws))"
    and b: "b \<in> set (drop k (ranked srt (Amount tot) ws))"
  shows "sint (residue b) \<le> sint (residue a)"
proof -
  let ?rk = "ranked srt (Amount tot) ws"
  have "sorted_wrt (\<lambda>a b. \<not> residue_gt b a) (take k ?rk @ drop k ?rk)"
    using sorter_sorts(2) [OF srt, of "entries_of tot ws"]
    by (simp add: ranked_eq)
  then have "\<not> residue_gt b a" using a b unfolding sorted_wrt_append by blast
  then show ?thesis by (simp add: residue_gt_def)
qed

lemma Split_valid_nth:
  fixes tot :: Money and ws :: "int64 list" and srt :: "entry sorter"
  assumes v: "valid_weights ws" and fit: "weight_sum ws < 2 ^ 63"
    and srt: "sorts_slice srt residue_gt"
  shows "\<exists>fp. Split srt tot ws = Inr (map (\<lambda>amt. New amt (Currency tot)) fp) \<and>
           length fp = length ws \<and>
           sum_list (map sint fp) = sint (Amount tot) \<and>
           (\<forall>i<length ws. sint (fp ! i) =
              (sint (Amount tot) * sint (ws ! i)) div weight_sum ws +
              (if entries_of tot ws ! i \<in> set (take (nat (units tot ws)) (ranked srt (Amount tot) ws))
               then 1 else 0))"
proof -
  define rk where "rk = ranked srt (Amount tot) ws"
  define k where "k = nat (units tot ws)"
  obtain fp where fp: "Split srt tot ws = Inr (map (\<lambda>amt. New amt (Currency tot)) fp)"
    "length fp = length ws"
    "\<forall>e\<in>set (take k rk). sint (fp ! index e) = sint (base e) + 1"
    "\<forall>e\<in>set (drop k rk). sint (fp ! index e) = sint (base e)"
    "sum_list (map sint fp) = sint (Amount tot)"
    using Split_valid [OF v fit srt, of tot] unfolding rk_def k_def by blast
  have Spos: "0 < weight_sum ws" using v by (simp add: valid_weights_def)
  have set_rk: "set rk = set (entries_of tot ws)"
    unfolding rk_def using ranked_perm [OF srt] by (rule mset_eq_setD)
  have split: "set rk = set (take k rk) \<union> set (drop k rk)"
    by (metis append_take_drop_id set_append)
  have "sint (fp ! i) = (sint (Amount tot) * sint (ws ! i)) div weight_sum ws +
      (if entries_of tot ws ! i \<in> set (take k rk) then 1 else 0)" if i: "i < length ws" for i
  proof -
    let ?e = "entries_of tot ws ! i"
    have idx: "index ?e = i"
      using i by (simp add: entries_of_nth mk_entry_simps)
    have mem: "?e \<in> set rk"
      using i unfolding set_rk by (simp add: entries_of_length)
    have q: "sint (base ?e) = (sint (Amount tot) * sint (ws ! i)) div weight_sum ws"
      using arg_cong [OF valid_entries(1) [OF v fit, of tot], of "\<lambda>xs. xs ! i"] i
      by (simp add: entries_of_length big_Div_pos [OF Spos])
    show ?thesis
    proof (cases "?e \<in> set (take k rk)")
      case True
      then have "sint (fp ! index ?e) = sint (base ?e) + 1" using fp(3) by blast
      then show ?thesis using True idx q by simp
    next
      case False
      then have "?e \<in> set (drop k rk)" using mem split by blast
      then have "sint (fp ! index ?e) = sint (base ?e)" using fp(4) by blast
      then show ?thesis using False idx q by simp
    qed
  qed
  then show ?thesis using fp(1,2,5) unfolding rk_def k_def by blast
qed

text \<open>
  Pass 1 divides the exact product: \<open>sint t * sint w\<close> is a product of unbounded
  integers, and quotient and modulus satisfy the division identity for it.
\<close>

lemma mk_entry_exact:
  "sint s \<noteq> 0 \<Longrightarrow>
     base (mk_entry t s i w) = Int64 (big_Div (sint t * sint w) (sint s)) \<and>
     residue (mk_entry t s i w) = Int64 (big_Mod (sint t * sint w) (sint s)) \<and>
     big_Div (sint t * sint w) (sint s) * sint s + big_Mod (sint t * sint w) (sint s) =
       sint t * sint w \<and>
     0 \<le> big_Mod (sint t * sint w) (sint s) \<and> big_Mod (sint t * sint w) (sint s) < \<bar>sint s\<bar>"
  using big_Div_Mod [of "sint t * sint w" "sint s"] big_Mod_bounds [of "sint s" "sint t * sint w"]
  by (simp add: mk_entry_simps)

section \<open>The guarantees of Split\<close>

lemma valid_123: "valid_weights [1, 2, 3]" "weight_sum [1, 2, 3] < 2 ^ 63"
  by (simp_all add: valid_weights_def weight_sum_def)

lemma valid_11: "valid_weights [1, 1]" "weight_sum [1, 1] < 2 ^ 63"
  by (simp_all add: valid_weights_def weight_sum_def)

subsection \<open>Where the sum of the weights does not wrap\<close>

text \<open>
  As long as the exact sum of the weights is an \<open>int64\<close>, \<open>Split\<close> does what its
  callers expect, for every total and every sort that meets the contract: the parts sum
  to the total, they are non-negative when the total is, and \<open>ErrInvalidWeights\<close> for an
  empty list or a zero sum is the only failure. These lemmas delimit the defect of the
  unchecked sum, shown further down.
\<close>

lemma Split_conserves_in_range:
  assumes "valid_weights ws" and "weight_sum ws < 2 ^ 63" and "sorts_slice srt residue_gt"
  shows "\<exists>parts. Split srt tot ws = Inr parts \<and> length parts = length ws \<and>
           sum_list (part_values parts) = sint (Amount tot)"
proof -
  obtain fp where "Split srt tot ws = Inr (map (\<lambda>amt. New amt (Currency tot)) fp)"
    "length fp = length ws" "sum_list (map sint fp) = sint (Amount tot)"
    using Split_valid [OF assms, of tot] by blast
  then show ?thesis by (metis length_map part_values_New)
qed

lemma Split_non_negative_in_range:
  assumes "valid_weights ws" and "weight_sum ws < 2 ^ 63" and "sorts_slice srt residue_gt"
    and "0 \<le> sint (Amount tot)"
  shows "\<exists>parts. Split srt tot ws = Inr parts \<and> (\<forall>p\<in>set parts. 0 \<le> sint (Amount p))"
proof -
  obtain fp where "Split srt tot ws = Inr (map (\<lambda>amt. New amt (Currency tot)) fp)"
    "\<forall>a\<in>set fp. 0 \<le> sint a"
    using Split_valid [OF assms(1-3), of tot] assms(4) by blast
  then show ?thesis by (auto simp: New_def Amount_def)
qed

lemma Split_Inl_iff:
  "Split srt tot ws = Inl ErrInvalidWeights \<longleftrightarrow> ws = [] \<or> sum_weights ws = 0"
  by (simp add: Split_def Let_def split: option.splits)

lemma Split_only_failure_in_range:
  assumes "sorts_slice srt residue_gt"
    and "- (2 ^ 63) \<le> weight_sum ws" and "weight_sum ws < 2 ^ 63"
  shows "(Split srt tot ws = Inl ErrInvalidWeights \<longleftrightarrow> ws = [] \<or> weight_sum ws = 0) \<and>
         (ws \<noteq> [] \<and> weight_sum ws \<noteq> 0 \<longrightarrow>
            (\<exists>parts. Split srt tot ws = Inr parts \<and> length parts = length ws))"
proof -
  have z: "sum_weights ws = 0 \<longleftrightarrow> weight_sum ws = 0"
    using assms(2,3) by (rule sum_weights_eq_0_iff)
  have "\<exists>parts. Split srt tot ws = Inr parts \<and> length parts = length ws"
    if ne: "ws \<noteq> []" and nz: "weight_sum ws \<noteq> 0"
  proof -
    have "units tot ws \<le> int (length ws)"
      using nz assms(2,3) by (rule units_le_length)
    moreover have "sum_weights ws \<noteq> 0" using nz z by simp
    ultimately obtain fp where
      "Split srt tot ws = Inr (map (\<lambda>amt. New amt (Currency tot)) fp)" "length fp = length ws"
      using Split_Inr [OF ne _ assms(1)] by blast
    then show ?thesis by (metis length_map)
  qed
  then show ?thesis using Split_Inl_iff [of srt tot ws] z by blast
qed

subsection \<open>Monotonicity\<close>

text \<open>
  C4 (as amended). For every total that is not negative and every valid list of weights
  whose sum fits in an \<open>int64\<close>: a strictly larger weight never receives a smaller
  part.
\<close>

theorem Split_monotone:
  fixes tot :: Money and ws :: "int64 list" and srt :: "entry sorter"
  assumes v: "valid_weights ws" and fit: "weight_sum ws < 2 ^ 63"
    and srt: "sorts_slice srt residue_gt"
    and T: "0 \<le> sint (Amount tot)"
    and i: "i < length ws" and j: "j < length ws"
    and w: "sint (ws ! j) < sint (ws ! i)"
  shows "\<exists>parts. Split srt tot ws = Inr parts \<and> length parts = length ws \<and>
           sint (Amount (parts ! j)) \<le> sint (Amount (parts ! i))"
proof -
  define rk where "rk = ranked srt (Amount tot) ws"
  define k where "k = nat (units tot ws)"
  define S where "S = weight_sum ws"
  define T where "T = sint (Amount tot)"
  define ei where "ei = entries_of tot ws ! i"
  define ej where "ej = entries_of tot ws ! j"
  obtain fp where fp: "Split srt tot ws = Inr (map (\<lambda>amt. New amt (Currency tot)) fp)"
    "length fp = length ws"
    "\<forall>e\<in>set (take k rk). sint (fp ! index e) = sint (base e) + 1"
    "\<forall>e\<in>set (drop k rk). sint (fp ! index e) = sint (base e)"
    using Split_valid [OF v fit srt, of tot] unfolding rk_def k_def by blast
  have Spos: "0 < S" using v by (simp add: valid_weights_def S_def)
  have set_rk: "set rk = set (entries_of tot ws)"
    unfolding rk_def using ranked_perm [OF srt] by (rule mset_eq_setD)
  have idx: "index ei = i" "index ej = j"
    using i j by (simp_all add: ei_def ej_def entries_of_nth mk_entry_simps)
  have mem: "ei \<in> set rk" "ej \<in> set rk"
    using i j unfolding set_rk ei_def ej_def by (simp_all add: entries_of_length)
  have split: "set rk = set (take k rk) \<union> set (drop k rk)"
    by (metis append_take_drop_id set_append)
  have qi: "sint (base ei) = big_Div (T * sint (ws ! i)) S"
    using arg_cong [OF valid_entries(1) [OF v fit, of tot], of "\<lambda>xs. xs ! i"] i
    by (simp add: ei_def entries_of_length T_def S_def)
  have qj: "sint (base ej) = big_Div (T * sint (ws ! j)) S"
    using arg_cong [OF valid_entries(1) [OF v fit, of tot], of "\<lambda>xs. xs ! j"] j
    by (simp add: ej_def entries_of_length T_def S_def)
  have ri: "sint (residue ei) = big_Mod (T * sint (ws ! i)) S"
    using arg_cong [OF valid_entries(2) [OF v fit, of tot], of "\<lambda>xs. xs ! i"] i
    by (simp add: ei_def entries_of_length T_def S_def)
  have rj: "sint (residue ej) = big_Mod (T * sint (ws ! j)) S"
    using arg_cong [OF valid_entries(2) [OF v fit, of tot], of "\<lambda>xs. xs ! j"] j
    by (simp add: ej_def entries_of_length T_def S_def)
  have pi: "sint (base ei) \<le> sint (fp ! i)"
    using fp(3,4) mem(1) idx(1) split by force
  have pj: "sint (fp ! j) \<le> sint (base ej) + 1"
    using fp(3,4) mem(2) idx(2) split by force
  have "T * sint (ws ! j) \<le> T * sint (ws ! i)"
    using T w unfolding T_def by (simp add: mult_left_mono)
  then have "(T * sint (ws ! j)) div S \<le> (T * sint (ws ! i)) div S"
    using Spos by (rule zdiv_mono1)
  then have qle: "sint (base ej) \<le> sint (base ei)"
    unfolding qi qj by (simp add: big_Div_pos [OF Spos])
  have "sint (fp ! j) \<le> sint (fp ! i)"
  proof (cases "sint (base ej) < sint (base ei)")
    case True
    then show ?thesis using pi pj by linarith
  next
    case False
    then have qeq: "big_Div (T * sint (ws ! j)) S = big_Div (T * sint (ws ! i)) S"
      using qle unfolding qi qj by linarith
    show ?thesis
    proof (cases "ej \<in> set (take k rk) \<and> ei \<in> set (drop k rk)")
      case True
      then have "sint (residue ei) \<le> sint (residue ej)"
        unfolding rk_def using ranked_take_drop [OF srt, of ej k tot ws ei] by blast
      then have "big_Mod (T * sint (ws ! i)) S \<le> big_Mod (T * sint (ws ! j)) S"
        unfolding ri rj .
      moreover have "big_Div (T * sint (ws ! j)) S * S = big_Div (T * sint (ws ! i)) S * S"
        using qeq by simp
      ultimately have "T * sint (ws ! i) \<le> T * sint (ws ! j)"
        using big_Div_Mod [of "T * sint (ws ! i)" S] big_Div_Mod [of "T * sint (ws ! j)" S]
        by linarith
      then have "T * (sint (ws ! i) - sint (ws ! j)) \<le> 0"
        by (simp add: algebra_simps)
      moreover have "0 < sint (ws ! i) - sint (ws ! j)" using w by simp
      ultimately have "T \<le> 0" by (simp add: mult_le_0_iff)
      then have T0: "T = 0" using T unfolding T_def by simp
      have "units tot ws = 0"
        using valid_units(1) [OF v fit, of tot] T0 unfolding T_def
        by (simp add: big_Div_def)
      then have "k = 0" by (simp add: k_def)
      then show ?thesis using True by simp
    next
      case False
      then consider "ej \<in> set (drop k rk)" | "ei \<in> set (take k rk)"
        using mem split by blast
      then show ?thesis
      proof cases
        case 1
        then have "sint (fp ! j) = sint (base ej)" using fp(4) idx(2) by force
        then show ?thesis using qle pi by linarith
      next
        case 2
        then have "sint (fp ! i) = sint (base ei) + 1" using fp(3) idx(1) by force
        then show ?thesis using qle pj by linarith
      qed
    qed
  qed
  then have "sint (Amount (map (\<lambda>amt. New amt (Currency tot)) fp ! j)) \<le>
             sint (Amount (map (\<lambda>amt. New amt (Currency tot)) fp ! i))"
    using i j fp(2) by (simp add: New_def Amount_def)
  then show ?thesis using fp(1,2) by (metis length_map)
qed

theorem Split_monotone_witness:
  "valid_weights [1, 2, 3] \<and> weight_sum [1, 2, 3] < 2 ^ 63 \<and>
   sorts_slice insertionSort residue_gt \<and> 0 \<le> sint (Amount (New 10000 ''USD'')) \<and>
   (2 :: nat) < length [1, 2, 3 :: int64] \<and> (0 :: nat) < length [1, 2, 3 :: int64] \<and>
   sint ([1, 2, 3 :: int64] ! 0) < sint ([1, 2, 3 :: int64] ! 2) \<and>
   (\<exists>parts. Split insertionSort (New 10000 ''USD'') [1, 2, 3] = Inr parts \<and>
      length parts = length [1, 2, 3 :: int64] \<and>
      sint (Amount (parts ! 0)) \<le> sint (Amount (parts ! 2)))"
proof -
  have h: "0 \<le> sint (Amount (New 10000 ''USD''))" "(2 :: nat) < length [1, 2, 3 :: int64]"
    "(0 :: nat) < length [1, 2, 3 :: int64]"
    "sint ([1, 2, 3 :: int64] ! 0) < sint ([1, 2, 3 :: int64] ! 2)"
    by (simp_all add: New_def Amount_def)
  show ?thesis
    using Split_monotone [OF valid_123 insertionSort_sorts_slice h] valid_123
      insertionSort_sorts_slice h
    by blast
qed

text \<open>
  The claim as stated covers negative totals, where it fails: there the larger weight
  receives the larger debt. It also fails when the sum of the weights wraps: two weights
  of \<open>2^62\<close> sum to \<open>-2^63\<close> in \<open>int64\<close>, and end below two weights of zero.
\<close>

theorem Split_monotone_counterexample:
  "valid_weights [3, 1] \<and> weight_sum [3, 1] < 2 ^ 63 \<and> sint (1 :: int64) < sint (3 :: int64) \<and>
   Split insertionSort (New (- 10) ''USD'') [3, 1] = Inr [New (- 7) ''USD'', New (- 3) ''USD''] \<and>
   sint (Amount (New (- 7) ''USD'')) < sint (Amount (New (- 3) ''USD'')) \<and>
   valid_weights [4611686018427387904, 4611686018427387904, 0, 0] \<and>
   sint (0 :: int64) < sint (4611686018427387904 :: int64) \<and>
   Split insertionSort (New 2 ''USD'') [4611686018427387904, 4611686018427387904, 0, 0] =
     Inr [New 0 ''USD'', New 0 ''USD'', New 1 ''USD'', New 1 ''USD''] \<and>
   sint (Amount (New 0 ''USD'')) < sint (Amount (New 1 ''USD''))"
  by code_simp

subsection \<open>The largest total, and the exact product\<close>

text \<open>
  C7. For every sort that meets the contract of \<open>sort.Slice\<close>,
  \<open>Split(MaxInt64, [1, 1])\<close> succeeds with two non-negative parts that sum exactly to
  \<open>MaxInt64 = 9223372036854775807\<close>. The product of total and weight never wraps:
  for every total, weight and non-zero sum, base and residue of an entry are the
  Euclidean quotient and modulus of the product taken in unbounded integers, which
  satisfy the division identity for that exact product. In consequence every part is the
  floor of \<open>total * weight[i] / sum\<close>, computed exactly, or one more.
\<close>

theorem Split_MaxInt64:
  assumes "sorts_slice srt residue_gt"
  shows "(\<exists>parts. Split srt (New 9223372036854775807 c) [1, 1] = Inr parts \<and> length parts = 2 \<and>
            (\<forall>p\<in>set parts. 0 \<le> sint (Amount p)) \<and>
            sum_list (part_values parts) = 9223372036854775807) \<and>
         (\<forall>t s i w. sint s \<noteq> 0 \<longrightarrow>
            base (mk_entry t s i w) = Int64 (big_Div (sint t * sint w) (sint s)) \<and>
            residue (mk_entry t s i w) = Int64 (big_Mod (sint t * sint w) (sint s)) \<and>
            big_Div (sint t * sint w) (sint s) * sint s + big_Mod (sint t * sint w) (sint s) =
              sint t * sint w \<and>
            0 \<le> big_Mod (sint t * sint w) (sint s) \<and>
            big_Mod (sint t * sint w) (sint s) < \<bar>sint s\<bar>) \<and>
         (\<forall>tot ws. valid_weights ws \<and> weight_sum ws < 2 ^ 63 \<longrightarrow>
            (\<exists>parts. Split srt tot ws = Inr parts \<and> length parts = length ws \<and>
               (\<forall>i<length ws.
                  sint (Amount (parts ! i)) =
                    (sint (Amount tot) * sint (ws ! i)) div weight_sum ws \<or>
                  sint (Amount (parts ! i)) =
                    (sint (Amount tot) * sint (ws ! i)) div weight_sum ws + 1)))"
proof -
  have T: "sint (Amount (New 9223372036854775807 c)) = 9223372036854775807"
    by (simp add: New_def Amount_def)
  obtain fp where fp: "Split srt (New 9223372036854775807 c) [1, 1] =
      Inr (map (\<lambda>amt. New amt (Currency (New 9223372036854775807 c))) fp)"
    "length fp = length [1, 1 :: int64]"
    "sum_list (map sint fp) = sint (Amount (New 9223372036854775807 c))"
    "\<forall>a\<in>set fp. 0 \<le> sint a"
    using Split_valid [OF valid_11 assms, of "New 9223372036854775807 c"] T by auto
  have 1: "\<exists>parts. Split srt (New 9223372036854775807 c) [1, 1] = Inr parts \<and> length parts = 2 \<and>
            (\<forall>p\<in>set parts. 0 \<le> sint (Amount p)) \<and>
            sum_list (part_values parts) = 9223372036854775807"
  proof (intro exI conjI)
    show "Split srt (New 9223372036854775807 c) [1, 1] =
      Inr (map (\<lambda>amt. New amt (Currency (New 9223372036854775807 c))) fp)"
      by (rule fp(1))
    show "length (map (\<lambda>amt. New amt (Currency (New 9223372036854775807 c))) fp) = 2"
      using fp(2) by simp
    show "\<forall>p\<in>set (map (\<lambda>amt. New amt (Currency (New 9223372036854775807 c))) fp).
        0 \<le> sint (Amount p)"
      using fp(4) by (simp add: New_def Amount_def)
    show "sum_list (part_values (map (\<lambda>amt. New amt (Currency (New 9223372036854775807 c))) fp)) =
        9223372036854775807"
      unfolding part_values_New fp(3) by (rule T)
  qed
  have 3: "\<exists>parts. Split srt tot ws = Inr parts \<and> length parts = length ws \<and>
               (\<forall>i<length ws.
                  sint (Amount (parts ! i)) =
                    (sint (Amount tot) * sint (ws ! i)) div weight_sum ws \<or>
                  sint (Amount (parts ! i)) =
                    (sint (Amount tot) * sint (ws ! i)) div weight_sum ws + 1)"
    if "valid_weights ws \<and> weight_sum ws < 2 ^ 63" for tot ws
  proof -
    have "\<exists>gp. Split srt tot ws = Inr (map (\<lambda>amt. New amt (Currency tot)) gp)
      \<and> length gp = length ws \<and>
      (\<forall>i<length ws. sint (gp ! i) =
              (sint (Amount tot) * sint (ws ! i)) div weight_sum ws +
              (if entries_of tot ws ! i \<in> set (take (nat (units tot ws)) (ranked srt (Amount tot) ws))
               then 1 else 0))"
    proof -
      have v: "valid_weights ws" and f: "weight_sum ws < 2 ^ 63"
        using that by blast+
      show ?thesis using Split_valid_nth [OF v f assms, of tot] by blast
    qed
    then obtain gp where gp: "Split srt tot ws = Inr (map (\<lambda>amt. New amt (Currency tot)) gp)"
      "length gp = length ws"
      "\<forall>i<length ws. sint (gp ! i) =
              (sint (Amount tot) * sint (ws ! i)) div weight_sum ws +
              (if entries_of tot ws ! i \<in> set (take (nat (units tot ws)) (ranked srt (Amount tot) ws))
               then 1 else 0)"
      by blast
    have "\<forall>i<length ws. sint (Amount (map (\<lambda>amt. New amt (Currency tot)) gp ! i)) =
              (sint (Amount tot) * sint (ws ! i)) div weight_sum ws \<or>
            sint (Amount (map (\<lambda>amt. New amt (Currency tot)) gp ! i)) =
              (sint (Amount tot) * sint (ws ! i)) div weight_sum ws + 1"
      using gp(2,3) by (simp add: New_def Amount_def)
    then show ?thesis using gp(1,2) by (metis length_map)
  qed
  show ?thesis using 1 3 mk_entry_exact by blast
qed

text \<open>
  At \<open>MaxInt64\<close> and the weights \<open>2, 1\<close> the product \<open>2 * MaxInt64\<close> exceeds the
  \<open>int64\<close> range; the parts are its exact thirds.
\<close>

theorem Split_MaxInt64_witness:
  "sorts_slice insertionSort residue_gt \<and>
   Split insertionSort (New 9223372036854775807 ''USD'') [1, 1] =
     Inr [New 4611686018427387904 ''USD'', New 4611686018427387903 ''USD''] \<and>
   (\<exists>parts. Split insertionSort (New 9223372036854775807 ''USD'') [1, 1] = Inr parts \<and>
      length parts = 2 \<and> (\<forall>p\<in>set parts. 0 \<le> sint (Amount p)) \<and>
      sum_list (part_values parts) = 9223372036854775807) \<and>
   sint (3 :: int64) \<noteq> 0 \<and>
   sint (9223372036854775807 :: int64) * sint (2 :: int64) = 18446744073709551614 \<and>
   base (mk_entry 9223372036854775807 3 0 2) = Int64 6148914691236517204 \<and>
   residue (mk_entry 9223372036854775807 3 0 2) = Int64 2 \<and>
   6148914691236517204 * sint (3 :: int64) + 2 = (18446744073709551614 :: int) \<and>
   valid_weights [2, 1] \<and> weight_sum [2, 1] < 2 ^ 63 \<and>
   Split insertionSort (New 9223372036854775807 ''USD'') [2, 1] =
     Inr [New 6148914691236517205 ''USD'', New 3074457345618258602 ''USD'']"
proof -
  have h: "sint (3 :: int64) \<noteq> 0" "valid_weights [2, 1]" "weight_sum [2, 1] < 2 ^ 63"
    by (simp_all add: valid_weights_def weight_sum_def)
  have e: "Split insertionSort (New 9223372036854775807 ''USD'') [1, 1] =
      Inr [New 4611686018427387904 ''USD'', New 4611686018427387903 ''USD'']"
    "Split insertionSort (New 9223372036854775807 ''USD'') [2, 1] =
      Inr [New 6148914691236517205 ''USD'', New 3074457345618258602 ''USD'']"
    "sint (9223372036854775807 :: int64) * sint (2 :: int64) = 18446744073709551614"
    "base (mk_entry 9223372036854775807 3 0 2) = Int64 6148914691236517204"
    "residue (mk_entry 9223372036854775807 3 0 2) = Int64 2"
    "6148914691236517204 * sint (3 :: int64) + 2 = (18446744073709551614 :: int)"
    by code_simp+
  show ?thesis
    using Split_MaxInt64 [OF insertionSort_sorts_slice, of "''USD''"] insertionSort_sorts_slice h e
    by blast
qed

subsection \<open>The unchecked sum of the weights\<close>

text \<open>
  C1. The claim: for every total and every non-empty list of non-negative weights with a
  positive sum, \<open>Split\<close> succeeds and the parts sum exactly to the total. The code does
  not keep it: \<open>sumWeights += int64(w)\<close> wraps silently. The weights
  \<open>2^63 - 1, 2^63 - 1, 5\<close> are non-negative, their sum \<open>2^64 + 3\<close> wraps to \<open>3\<close>,
  and for a total of \<open>1\<close> the bases are the weights divided by \<open>3\<close>; the remainder is
  negative, no unit is added, and the parts sum to \<open>6148914691236517205\<close>.
\<close>

theorem Split_weight_sum_wraps:
  "map sint [9223372036854775807, 9223372036854775807, 5 :: int64] =
     [9223372036854775807, 9223372036854775807, 5] \<and>
   weight_sum [9223372036854775807, 9223372036854775807, 5] = 18446744073709551619 \<and>
   sint (sum_weights [9223372036854775807, 9223372036854775807, 5]) = 3 \<and>
   units (New 1 ''USD'') [9223372036854775807, 9223372036854775807, 5] =
     - 6148914691236517204 \<and>
   Split insertionSort (New 1 ''USD'') [9223372036854775807, 9223372036854775807, 5] =
     Inr [New 3074457345618258602 ''USD'', New 3074457345618258602 ''USD'', New 1 ''USD''] \<and>
   sum_list (part_values
     [New 3074457345618258602 ''USD'', New 3074457345618258602 ''USD'', New 1 ''USD'']) =
     6148914691236517205 \<and>
   sint (Amount (New 1 ''USD'')) = 1"
  by code_simp

text \<open>
  C8. The claim: for every total that is not negative and every valid list of weights,
  every part is non-negative. The code does not keep it, through the same unchecked sum.
  Two weights of \<open>2^62\<close> and six of zero sum to \<open>-2^63\<close> in \<open>int64\<close>; for a total
  of \<open>4\<close> the two quotients are \<open>-2\<close>, eight units are left over, and two parts end
  at \<open>-1\<close>. With \<open>2^63 - 1, 2^63 - 1, 3\<close> the sum wraps to \<open>1\<close>, and \<open>Int64\<close> keeps the
  low 64 bits of \<open>2 * (2^63 - 1)\<close>, which read \<open>-2\<close>.
\<close>

theorem Split_negative_parts:
  "map sint [4611686018427387904, 4611686018427387904, 0, 0, 0, 0, 0, 0 :: int64] =
     [4611686018427387904, 4611686018427387904, 0, 0, 0, 0, 0, 0] \<and>
   sint (sum_weights [4611686018427387904, 4611686018427387904, 0, 0, 0, 0, 0, 0]) =
     - 9223372036854775808 \<and>
   sint (Amount (New 4 ''USD'')) = 4 \<and>
   units (New 4 ''USD'') [4611686018427387904, 4611686018427387904, 0, 0, 0, 0, 0, 0] = 8 \<and>
   Split insertionSort (New 4 ''USD'') [4611686018427387904, 4611686018427387904, 0, 0, 0, 0, 0, 0] =
     Inr [New (- 1) ''USD'', New (- 1) ''USD'', New 1 ''USD'', New 1 ''USD'',
          New 1 ''USD'', New 1 ''USD'', New 1 ''USD'', New 1 ''USD''] \<and>
   sint (Amount (New (- 1) ''USD'')) = - 1 \<and>
   map sint [9223372036854775807, 9223372036854775807, 3 :: int64] =
     [9223372036854775807, 9223372036854775807, 3] \<and>
   sint (sum_weights [9223372036854775807, 9223372036854775807, 3]) = 1 \<and>
   units (New 2 ''USD'') [9223372036854775807, 9223372036854775807, 3] = 0 \<and>
   Split insertionSort (New 2 ''USD'') [9223372036854775807, 9223372036854775807, 3] =
     Inr [New (- 2) ''USD'', New (- 2) ''USD'', New 6 ''USD''] \<and>
   sint (Amount (New (- 2) ''USD'')) = - 2"
  by code_simp

text \<open>
  C5. The claim: \<open>Split\<close> returns \<open>ErrInvalidWeights\<close> if and only if the list is
  empty or its sum is zero, and that is its only failure. The code does not keep it,
  through the same unchecked sum. Two weights of \<open>2^62\<close> sum to \<open>-2^63\<close> in
  \<open>int64\<close>; for a total of \<open>3\<close> pass 1 leaves \<open>5\<close> units, and pass 2 indexes past the
  two entries: an index-out-of-range panic. And three weights whose sum is \<open>2^64\<close> are
  rejected with \<open>ErrInvalidWeights\<close>, although their sum is not zero.
\<close>

theorem Split_panics_on_wrapped_sum:
  "map sint [4611686018427387904, 4611686018427387904 :: int64] =
     [4611686018427387904, 4611686018427387904] \<and>
   weight_sum [4611686018427387904, 4611686018427387904] = 9223372036854775808 \<and>
   sint (sum_weights [4611686018427387904, 4611686018427387904]) = - 9223372036854775808 \<and>
   units (New 3 ''USD'') [4611686018427387904, 4611686018427387904] = 5 \<and>
   length (ranked insertionSort (Amount (New 3 ''USD''))
     [4611686018427387904, 4611686018427387904]) = 2 \<and>
   Split insertionSort (New 3 ''USD'') [4611686018427387904, 4611686018427387904] =
     Inl PanicIndexOutOfRange \<and>
   weight_sum [9223372036854775807, 9223372036854775807, 2] = 18446744073709551616 \<and>
   sum_weights [9223372036854775807, 9223372036854775807, 2] = 0 \<and>
   Split insertionSort (New 3 ''USD'') [9223372036854775807, 9223372036854775807, 2] =
     Inl ErrInvalidWeights"
  by code_simp

subsection \<open>Ties\<close>

lemma tied_weights_ok: "valid_weights tied_weights" "weight_sum tied_weights < 2 ^ 63"
  by (simp_all add: tied_weights_def valid_weights_def weight_sum_def)

lemma tied_pass1:
  "entries_of (New 3 c) tied_weights =
     [\<lparr>index = 0, base = 0, residue = 6\<rparr>, \<lparr>index = 1, base = 0, residue = 3\<rparr>,
      \<lparr>index = 2, base = 0, residue = 3\<rparr>, \<lparr>index = 3, base = 0, residue = 3\<rparr>,
      \<lparr>index = 4, base = 0, residue = 3\<rparr>, \<lparr>index = 5, base = 0, residue = 3\<rparr>,
      \<lparr>index = 6, base = 0, residue = 3\<rparr>, \<lparr>index = 7, base = 0, residue = 3\<rparr>,
      \<lparr>index = 8, base = 0, residue = 3\<rparr>, \<lparr>index = 9, base = 0, residue = 3\<rparr>,
      \<lparr>index = 10, base = 0, residue = 3\<rparr>, \<lparr>index = 11, base = 0, residue = 3\<rparr>,
      \<lparr>index = 12, base = 0, residue = 6\<rparr>]"
  "units (New 3 c) tied_weights = 3"
  by code_simp+

lemma tied_top_two:
  assumes srt: "sorts_slice srt residue_gt"
  shows "\<lparr>index = 0, base = 0, residue = 6\<rparr> \<in> set (take 3 (ranked srt (Amount (New 3 c)) tied_weights))"
    and "\<lparr>index = 12, base = 0, residue = 6\<rparr> \<in> set (take 3 (ranked srt (Amount (New 3 c)) tied_weights))"
proof -
  define rk where "rk = ranked srt (Amount (New 3 c)) tied_weights"
  let ?E = "entries_of (New 3 c) tied_weights"
  let ?a = "\<lparr>index = 0, base = 0 :: int64, residue = 6 :: int64\<rparr>"
  let ?b = "\<lparr>index = 12, base = 0 :: int64, residue = 6 :: int64\<rparr>"
  have perm: "mset rk = mset ?E"
    unfolding rk_def by (rule ranked_perm [OF srt])
  have set_rk: "set rk = set ?E"
    using perm by (rule mset_eq_setD)
  have "distinct ?E"
    unfolding tied_pass1(1) by simp
  then have d: "distinct rk"
    using perm by (metis mset_eq_imp_distinct_iff)
  have len: "length rk = 13"
    unfolding rk_def using ranked_length [OF srt, of "New 3 c" tied_weights]
    by (simp add: tied_weights_def)
  have card3: "card (set (take 3 rk)) = 3"
    using d len by (simp add: distinct_card)
  have six: "e = ?a \<or> e = ?b" if "e \<in> set rk" "6 \<le> sint (residue e)" for e
    using that unfolding set_rk tied_pass1(1) by auto
  have mem: "?a \<in> set rk" "?b \<in> set rk"
    unfolding set_rk tied_pass1(1) by simp_all
  have split: "set rk = set (take 3 rk) \<union> set (drop 3 rk)"
    by (metis append_take_drop_id set_append)
  have top: "x \<in> set (take 3 rk)" if x: "x \<in> set rk" "sint (residue x) = 6" for x
  proof (rule ccontr)
    assume "x \<notin> set (take 3 rk)"
    then have xd: "x \<in> set (drop 3 rk)" using x(1) split by blast
    have "set (take 3 rk) \<subseteq> {?a, ?b}"
    proof
      fix e assume e: "e \<in> set (take 3 rk)"
      then have "sint (residue x) \<le> sint (residue e)"
        using ranked_take_drop [OF srt, of e 3 "New 3 c" tied_weights x] xd
        unfolding rk_def by blast
      moreover have "e \<in> set rk" using e by (rule in_set_takeD)
      ultimately show "e \<in> {?a, ?b}" using six [of e] x(2) by auto
    qed
    then have "card (set (take 3 rk)) \<le> card {?a, ?b}"
      by (intro card_mono) simp_all
    also have "\<dots> \<le> 2" by (simp add: card_insert_if)
    finally show False using card3 by simp
  qed
  show "?a \<in> set (take 3 (ranked srt (Amount (New 3 c)) tied_weights))"
    using top [OF mem(1)] unfolding rk_def by simp
  show "?b \<in> set (take 3 (ranked srt (Amount (New 3 c)) tied_weights))"
    using top [OF mem(2)] unfolding rk_def by simp
qed

text \<open>
  C3. The claim: equal residues are ranked by ascending index, so that the earlier weight
  wins the unit. The code has no such key: the less function it hands to \<open>sort.Slice\<close>
  compares residues only, and \<open>sort.Slice\<close> is free to order equal residues as it
  likes. At \<open>Split(3, [2, 1, 1, 1, 1, 1, 1, 1, 1, 1, 1, 1, 2])\<close> pass 1 leaves three units
  and the residues \<open>6, 3, \<dots>, 3, 6\<close>. Whatever sort meets the contract, the indices 0
  and 12 receive a unit, and the third unit goes to the one of the eleven tied entries
  that the sort happens to rank first: the parts are \<open>1\<close> exactly on the first three
  entries of the sort's result. Index 1, which the claim names, receives it only if the
  sort ranks it so.
\<close>

theorem Split_ties_left_to_sort:
  assumes "sorts_slice srt residue_gt"
  shows "entries_of (New 3 c) tied_weights =
     [\<lparr>index = 0, base = 0, residue = 6\<rparr>, \<lparr>index = 1, base = 0, residue = 3\<rparr>,
      \<lparr>index = 2, base = 0, residue = 3\<rparr>, \<lparr>index = 3, base = 0, residue = 3\<rparr>,
      \<lparr>index = 4, base = 0, residue = 3\<rparr>, \<lparr>index = 5, base = 0, residue = 3\<rparr>,
      \<lparr>index = 6, base = 0, residue = 3\<rparr>, \<lparr>index = 7, base = 0, residue = 3\<rparr>,
      \<lparr>index = 8, base = 0, residue = 3\<rparr>, \<lparr>index = 9, base = 0, residue = 3\<rparr>,
      \<lparr>index = 10, base = 0, residue = 3\<rparr>, \<lparr>index = 11, base = 0, residue = 3\<rparr>,
      \<lparr>index = 12, base = 0, residue = 6\<rparr>] \<and>
    units (New 3 c) tied_weights = 3 \<and>
    (\<forall>i j. \<not> residue_gt \<lparr>index = i, base = 0, residue = 3\<rparr>
                \<lparr>index = j, base = 0, residue = 3\<rparr>) \<and>
    (\<exists>parts. Split srt (New 3 c) tied_weights = Inr parts \<and> length parts = 13 \<and>
       sint (Amount (parts ! 0)) = 1 \<and> sint (Amount (parts ! 12)) = 1 \<and>
       sum_list (part_values parts) = 3 \<and>
       (\<forall>i<13. sint (Amount (parts ! i)) =
          (if entries_of (New 3 c) tied_weights ! i \<in>
                set (take 3 (ranked srt (Amount (New 3 c)) tied_weights))
           then 1 else 0)))"
proof -
  have T: "sint (Amount (New 3 c)) = 3"
    by (simp add: New_def Amount_def)
  have S: "weight_sum tied_weights = 15" and L: "length tied_weights = 13"
    by (simp_all add: tied_weights_def weight_sum_def)
  obtain fp where fp: "Split srt (New 3 c) tied_weights =
      Inr (map (\<lambda>amt. New amt (Currency (New 3 c))) fp)"
    "length fp = length tied_weights"
    "sum_list (map sint fp) = sint (Amount (New 3 c))"
    "\<forall>i<length tied_weights. sint (fp ! i) =
        (sint (Amount (New 3 c)) * sint (tied_weights ! i)) div weight_sum tied_weights +
        (if entries_of (New 3 c) tied_weights ! i \<in>
              set (take (nat (units (New 3 c) tied_weights))
                (ranked srt (Amount (New 3 c)) tied_weights))
         then 1 else 0)"
    using Split_valid_nth [OF tied_weights_ok assms, of "New 3 c"] by blast
  let ?parts = "map (\<lambda>amt. New amt (Currency (New 3 c))) fp"
  have q: "(3 * sint (tied_weights ! i)) div 15 = 0" if "i < 13" for i
  proof -
    have "tied_weights ! i \<in> set tied_weights" using that L by simp
    then have "sint (tied_weights ! i) = 1 \<or> sint (tied_weights ! i) = 2"
      by (auto simp: tied_weights_def)
    then show ?thesis by auto
  qed
  have each: "\<forall>i<13. sint (Amount (?parts ! i)) =
          (if entries_of (New 3 c) tied_weights ! i \<in>
                set (take 3 (ranked srt (Amount (New 3 c)) tied_weights))
           then 1 else 0)"
    using fp(2,4) q unfolding T S L tied_pass1(2) by (simp add: New_def Amount_def)
  have len: "length ?parts = 13"
    using fp(2) L by simp
  have "entries_of (New 3 c) tied_weights ! 0 = \<lparr>index = 0, base = 0, residue = 6\<rparr>"
    unfolding tied_pass1(1) by simp
  then have p0: "sint (Amount (?parts ! 0)) = 1"
    using each tied_top_two(1) [OF assms, of c] by simp
  have "entries_of (New 3 c) tied_weights ! 12 = \<lparr>index = 12, base = 0, residue = 6\<rparr>"
    unfolding tied_pass1(1) by simp
  then have p12: "sint (Amount (?parts ! 12)) = 1"
    using each tied_top_two(2) [OF assms, of c] by simp
  have sum: "sum_list (part_values ?parts) = 3"
    unfolding part_values_New fp(3) by (rule T)
  have "\<exists>parts. Split srt (New 3 c) tied_weights = Inr parts \<and> length parts = 13 \<and>
       sint (Amount (parts ! 0)) = 1 \<and> sint (Amount (parts ! 12)) = 1 \<and>
       sum_list (part_values parts) = 3 \<and>
       (\<forall>i<13. sint (Amount (parts ! i)) =
          (if entries_of (New 3 c) tied_weights ! i \<in>
                set (take 3 (ranked srt (Amount (New 3 c)) tied_weights))
           then 1 else 0))"
    using fp(1) len p0 p12 sum each by blast
  moreover have "\<forall>i j. \<not> residue_gt \<lparr>index = i, base = 0, residue = 3\<rparr>
      \<lparr>index = j, base = 0, residue = 3\<rparr>"
    by (simp add: residue_gt_def)
  ultimately show ?thesis using tied_pass1 [of c] by blast
qed

text \<open>
  The hypothesis can be met: the insertion sort is a sort of this kind. (What it ranks
  third is not computed here; for 13 elements it is not the sort that Go runs.)
\<close>

theorem Split_ties_left_to_sort_witness:
  "sorts_slice insertionSort residue_gt \<and>
   units (New 3 ''USD'') tied_weights = 3 \<and>
   (\<exists>parts. Split insertionSort (New 3 ''USD'') tied_weights = Inr parts \<and> length parts = 13 \<and>
       sint (Amount (parts ! 0)) = 1 \<and> sint (Amount (parts ! 12)) = 1 \<and>
       sum_list (part_values parts) = 3 \<and>
       (\<forall>i<13. sint (Amount (parts ! i)) =
          (if entries_of (New 3 ''USD'') tied_weights ! i \<in>
                set (take 3 (ranked insertionSort (Amount (New 3 ''USD'')) tied_weights))
           then 1 else 0)))"
  using Split_ties_left_to_sort [OF insertionSort_sorts_slice, of "''USD''"]
    insertionSort_sorts_slice
  by blast

section \<open>AllocateTree: what is written, and when\<close>

lemma distribute_shape:
  "shape_of (snd (distribute srt n)) = shape_of n"
  "map shape_of (snd (assign_children srt amounts cs)) = map shape_of cs"
  by (induction srt n and srt amounts cs rule: distribute_assign_children.induct)
     (auto split: sum.splits prod.splits list.splits option.splits)

lemma shape_of_set_Allocated: "shape_of (set_Allocated n m) = shape_of n"
  by (cases n) simp

text \<open>
  C9. \<open>AllocateTree\<close> writes \<open>Allocated\<close> fields only: whatever the tree, the total
  and the outcome (success, \<open>ErrInvalidWeights\<close> or a panic inside \<open>Split\<close>), every
  node has the same name, the same weight and the same children, in the same order,
  before and after the call.
\<close>

theorem AllocateTree_frame:
  "shape_of (snd (AllocateTree srt root tot)) = shape_of root"
  by (simp add: AllocateTree_def distribute_shape shape_of_set_Allocated)

lemma distribute_Allocated: "Allocated (snd (distribute srt n)) = Allocated n"
  by (cases n) (auto split: sum.splits prod.splits)

lemma Split_sum_zero:
  "sum_weights ws = 0 \<Longrightarrow> Split srt tot ws = Inl ErrInvalidWeights"
  by (simp add: Split_def)

text \<open>
  C10. \<open>AllocateTree\<close> stores the total in the root before anything is validated: the
  root holds it when the call returns, whatever the outcome. In particular, when the
  weights of the root's children sum to zero the call returns \<open>ErrInvalidWeights\<close> and
  the tree it leaves is the old one with the root's \<open>Allocated\<close> overwritten.
\<close>

theorem AllocateTree_root_first:
  "Allocated (snd (AllocateTree srt root tot)) = tot \<and>
   (Children root \<noteq> [] \<and> sum_weights (map Weight (Children root)) = 0 \<longrightarrow>
      AllocateTree srt root tot = (Some ErrInvalidWeights, set_Allocated root tot))"
proof -
  have "Allocated (snd (AllocateTree srt root tot)) = tot"
    unfolding AllocateTree_def distribute_Allocated by (cases root) simp
  moreover have "AllocateTree srt root tot = (Some ErrInvalidWeights, set_Allocated root tot)"
    if "Children root \<noteq> []" "sum_weights (map Weight (Children root)) = 0"
    using that by (cases root) (simp add: AllocateTree_def Split_sum_zero)
  ultimately show ?thesis by blast
qed

theorem AllocateTree_root_first_witness:
  "Children (NewNode ''fund'' 1 [NewNode ''a'' 0 [], NewNode ''b'' 0 []]) \<noteq> [] \<and>
   sum_weights (map Weight (Children (NewNode ''fund'' 1 [NewNode ''a'' 0 [], NewNode ''b'' 0 []]))) = 0 \<and>
   AllocateTree insertionSort (NewNode ''fund'' 1 [NewNode ''a'' 0 [], NewNode ''b'' 0 []]) (New 10 ''USD'') =
     (Some ErrInvalidWeights,
      Node ''fund'' 1 [NewNode ''a'' 0 [], NewNode ''b'' 0 []] (New 10 ''USD''))"
  using AllocateTree_root_first [of insertionSort "NewNode ''fund'' 1 [NewNode ''a'' 0 [], NewNode ''b'' 0 []]" "New 10 ''USD''"]
  by (simp add: NewNode_def sum_weights_def)

section \<open>AllocateTree: conservation\<close>

lemma well_weighted_set_Allocated: "well_weighted (set_Allocated n m) = well_weighted n"
  and weights_fit_set_Allocated: "weights_fit (set_Allocated n m) = weights_fit n"
  and Allocated_set_Allocated: "Allocated (set_Allocated n m) = m"
  by (cases n; simp)+

lemma distribute_conserved:
  shows "sorts_slice srt residue_gt \<Longrightarrow> well_weighted n \<Longrightarrow> weights_fit n \<Longrightarrow>
           \<exists>n'. distribute srt n = (None, n') \<and> conserved n' \<and> Allocated n' = Allocated n"
    and "sorts_slice srt residue_gt \<Longrightarrow> length amounts = length cs \<Longrightarrow>
           \<forall>c\<in>set cs. well_weighted c \<and> weights_fit c \<Longrightarrow>
           \<exists>cs'. assign_children srt amounts cs = (None, cs') \<and> (\<forall>c\<in>set cs'. conserved c) \<and>
             map Allocated cs' = amounts"
proof (induction srt n and srt amounts cs rule: distribute_assign_children.induct)
  case (1 srt name weight children allocated)
  note srt = "1.prems"(1)
  show ?case
  proof (cases "children = []")
    case True
    then show ?thesis by simp
  next
    case False
    then have v: "valid_weights (map Weight children)"
      and f: "weight_sum (map Weight children) < 2 ^ 63"
      using "1.prems"(2,3) by simp_all
    obtain fp where fp: "Split srt allocated (map Weight children) =
        Inr (map (\<lambda>amt. New amt (Currency allocated)) fp)"
      "length fp = length (map Weight children)" "sum_list (map sint fp) = sint (Amount allocated)"
      using Split_valid [OF v f srt, of allocated] by blast
    let ?amounts = "map (\<lambda>amt. New amt (Currency allocated)) fp"
    have len: "length ?amounts = length children" using fp(2) by simp
    have kids: "\<forall>c\<in>set children. well_weighted c \<and> weights_fit c"
      using "1.prems"(2,3) by simp
    obtain cs' where cs': "assign_children srt ?amounts children = (None, cs')"
      "\<forall>c\<in>set cs'. conserved c" "map Allocated cs' = ?amounts"
      using "1.IH" [OF _ fp(1) srt len kids] False by auto
    have "sum_list (map (\<lambda>c. sint (Amount (Allocated c))) cs') = sum_list (part_values (map Allocated cs'))"
      by (simp add: part_values_def comp_def)
    also have "\<dots> = sint (Amount allocated)"
      unfolding cs'(3) part_values_New by (rule fp(3))
    finally show ?thesis using False fp(1) cs' by simp
  qed
next
  case (2 srt amounts)
  then show ?case by simp
next
  case (3 srt amounts name weight grand old rest)
  note srt = "3.prems"(1)
  from "3.prems"(2) obtain a amounts' where am: "amounts = a # amounts'"
    by (cases amounts) simp_all
  have w: "well_weighted (Node name weight grand a)" "weights_fit (Node name weight grand a)"
    using "3.prems"(3) by simp_all
  obtain child' where c: "distribute srt (Node name weight grand a) = (None, child')"
    "conserved child'" "Allocated child' = a"
    using "3.IH"(1) [OF am srt w] by auto
  have l: "length amounts' = length rest" using "3.prems"(2) am by simp
  have k: "\<forall>c\<in>set rest. well_weighted c \<and> weights_fit c" using "3.prems"(3) by simp
  obtain rest' where r: "assign_children srt amounts' rest = (None, rest')"
    "\<forall>c\<in>set rest'. conserved c" "map Allocated rest' = amounts'"
    using "3.IH"(2) [OF am c(1) [symmetric] _ srt l k] by auto
  show ?case using am c r by simp
qed

text \<open>
  Where no sum of sibling weights wraps, the tree is conserved: \<open>AllocateTree\<close>
  succeeds, the root holds the total, and every internal node holds the sum of its
  children.
\<close>

lemma AllocateTree_conserves_in_range:
  assumes "well_weighted root" and "weights_fit root" and "sorts_slice srt residue_gt"
  shows "\<exists>root'. AllocateTree srt root tot = (None, root') \<and> conserved root' \<and>
           Allocated root' = tot"
  using distribute_conserved(1) [OF assms(3), of "set_Allocated root tot"] assms(1,2)
  by (simp add: AllocateTree_def well_weighted_set_Allocated weights_fit_set_Allocated
      Allocated_set_Allocated)

lemma ceo_fund_ok: "well_weighted ceo_fund" "weights_fit ceo_fund"
  by (simp_all add: ceo_fund_def NewNode_def valid_weights_def weight_sum_def)

text \<open>The amounts the test of the repository expects.\<close>

lemma ceo_fund_allocated:
  "AllocateTree insertionSort ceo_fund (New 10 ''USD'') =
     (None, Node ''CEO Fund'' 1
        [Node ''Dept A'' 1
           [Node ''Team X'' 1 [] (New 2 ''USD''), Node ''Team Y'' 1 [] (New 1 ''USD''),
            Node ''Team Z'' 1 [] (New 1 ''USD'')] (New 4 ''USD''),
         Node ''Dept B'' 1 [] (New 3 ''USD''),
         Node ''Dept C'' 1 [] (New 3 ''USD'')] (New 10 ''USD''))"
  by code_simp

text \<open>
  C2. The claim: for every tree whose sibling weights are non-negative with a positive
  sum, \<open>AllocateTree\<close> succeeds and every internal node holds the sum of its
  children, the root holding the total. The code does not keep it: \<open>distribute\<close> calls
  \<open>Split\<close>, whose sum of the weights is unchecked. Below a root that holds \<open>1\<close>,
  leaves of weights \<open>2^63 - 1, 2^63 - 1, 5\<close> (their sum wraps to \<open>3\<close>) receive
  \<open>6148914691236517205\<close> in all, and the call reports success.
\<close>

theorem AllocateTree_weight_sum_wraps:
  "AllocateTree insertionSort (NewNode ''root'' 1
      [NewNode ''a'' 9223372036854775807 [], NewNode ''b'' 9223372036854775807 [],
       NewNode ''c'' 5 []]) (New 1 ''USD'') =
     (None, Node ''root'' 1
        [Node ''a'' 9223372036854775807 [] (New 3074457345618258602 ''USD''),
         Node ''b'' 9223372036854775807 [] (New 3074457345618258602 ''USD''),
         Node ''c'' 5 [] (New 1 ''USD'')] (New 1 ''USD'')) \<and>
   sum_list (part_values (map Allocated
        [Node ''a'' 9223372036854775807 [] (New 3074457345618258602 ''USD''),
         Node ''b'' 9223372036854775807 [] (New 3074457345618258602 ''USD''),
         Node ''c'' 5 [] (New 1 ''USD'')])) = 6148914691236517205 \<and>
   sint (Amount (New 1 ''USD'')) = 1 \<and>
   map sint [9223372036854775807, 9223372036854775807, 5 :: int64] =
     [9223372036854775807, 9223372036854775807, 5] \<and>
   sint (sum_weights [9223372036854775807, 9223372036854775807, 5]) = 3"
  by code_simp

section \<open>AllocateTree: the state left by a failure\<close>

lemma pass3_length: "pass3 es fp = Some fp' \<Longrightarrow> length fp' = length fp"
  by (induction es arbitrary: fp) (auto split: if_splits)

lemma Split_Inr_length: "Split srt tot ws = Inr parts \<Longrightarrow> length parts = length ws"
  by (auto simp: Split_def Let_def split: if_splits option.splits dest: pass3_length)

lemma assign_children_failure:
  "assign_children srt amounts cs = (Some err, cs') \<Longrightarrow> length amounts = length cs \<Longrightarrow>
     \<exists>i<length cs.
        fst (distribute srt (set_Allocated (cs ! i) (amounts ! i))) = Some err \<and>
        (\<forall>k<i. fst (distribute srt (set_Allocated (cs ! k) (amounts ! k))) = None) \<and>
        length cs' = length cs \<and>
        (\<forall>k\<le>i. Allocated (cs' ! k) = amounts ! k) \<and>
        drop (Suc i) cs' = drop (Suc i) cs"
proof (induction cs arbitrary: amounts cs')
  case Nil
  then show ?case by simp
next
  case (Cons c cs)
  obtain name weight grand old where c: "c = Node name weight grand old" by (cases c)
  obtain a amounts' where am: "amounts = a # amounts'"
    using Cons.prems(2) by (cases amounts) simp_all
  obtain e child' where d: "distribute srt (Node name weight grand a) = (e, child')"
    by (cases "distribute srt (Node name weight grand a)")
  have al: "Allocated child' = a"
    using distribute_Allocated [of srt "Node name weight grand a"] d by simp
  show ?case
  proof (cases e)
    case (Some err')
    then have "err' = err" "cs' = child' # cs"
      using Cons.prems(1) c am d by simp_all
    then have "fst (distribute srt (set_Allocated ((c # cs) ! 0) (amounts ! 0))) = Some err \<and>
        (\<forall>k<0. fst (distribute srt (set_Allocated ((c # cs) ! k) (amounts ! k))) = None) \<and>
        length cs' = length (c # cs) \<and>
        (\<forall>k\<le>0. Allocated (cs' ! k) = amounts ! k) \<and>
        drop (Suc 0) cs' = drop (Suc 0) (c # cs)"
      using c am d Some al by simp
    then show ?thesis by blast
  next
    case None
    obtain rest' where r: "assign_children srt amounts' cs = (Some err, rest')"
      "cs' = child' # rest'"
      using Cons.prems(1) c am d None by (auto split: prod.splits)
    have "length amounts' = length cs" using Cons.prems(2) am by simp
    from Cons.IH [OF r(1) this] obtain i where i: "i < length cs"
      "fst (distribute srt (set_Allocated (cs ! i) (amounts' ! i))) = Some err"
      "\<forall>k<i. fst (distribute srt (set_Allocated (cs ! k) (amounts' ! k))) = None"
      "length rest' = length cs"
      "\<forall>k\<le>i. Allocated (rest' ! k) = amounts' ! k"
      "drop (Suc i) rest' = drop (Suc i) cs"
      by blast
    have "Suc i < length (c # cs)" using i(1) by simp
    moreover have "fst (distribute srt (set_Allocated ((c # cs) ! Suc i) (amounts ! Suc i))) = Some err"
      using i(2) am by simp
    moreover have "\<forall>k<Suc i. fst (distribute srt (set_Allocated ((c # cs) ! k) (amounts ! k))) = None"
      using i(3) am c d None by (auto simp: less_Suc_eq_0_disj)
    moreover have "length cs' = length (c # cs)" using i(4) r(2) by simp
    moreover have "\<forall>k\<le>Suc i. Allocated (cs' ! k) = amounts ! k"
      using i(5) am r(2) al by (auto simp: nth_Cons split: nat.splits)
    moreover have "drop (Suc (Suc i)) cs' = drop (Suc (Suc i)) (c # cs)"
      using i(6) r(2) by simp
    ultimately show ?thesis by blast
  qed
qed

text \<open>
  C6 (as amended). The loop of step C stores the amount of a child and recurses into
  that child before it touches the next one. So when the error arises in the subtree of
  child \<open>i\<close> (the children before it having been distributed without error), the
  children \<open>0..i\<close> hold their amounts and the later siblings \<open>i + 1..\<close> are exactly
  as they were before the call: they have not been assigned.
\<close>

theorem distribute_failure_siblings:
  assumes "children \<noteq> []"
    and "Split srt allocated (map Weight children) = Inr amounts"
    and "distribute srt (Node name weight children allocated) = (Some err, n')"
  shows "\<exists>i<length children.
           fst (distribute srt (set_Allocated (children ! i) (amounts ! i))) = Some err \<and>
           (\<forall>k<i. fst (distribute srt (set_Allocated (children ! k) (amounts ! k))) = None) \<and>
           length (Children n') = length children \<and>
           (\<forall>k\<le>i. Allocated (Children n' ! k) = amounts ! k) \<and>
           drop (Suc i) (Children n') = drop (Suc i) children"
proof -
  have len: "length amounts = length children"
    using Split_Inr_length [OF assms(2)] by simp
  obtain cs' where cs': "assign_children srt amounts children = (Some err, cs')"
    "n' = Node name weight cs' allocated"
    using assms by (auto split: prod.splits)
  show ?thesis using assign_children_failure [OF cs'(1) len] cs'(2) by simp
qed

theorem distribute_failure_siblings_witness:
  "[NewNode ''A'' 1 [NewNode ''X'' 0 [], NewNode ''Y'' 0 []], NewNode ''B'' 1 []] \<noteq> [] \<and>
   Split insertionSort (New 10 ''USD'')
     (map Weight [NewNode ''A'' 1 [NewNode ''X'' 0 [], NewNode ''Y'' 0 []], NewNode ''B'' 1 []]) =
     Inr [New 5 ''USD'', New 5 ''USD''] \<and>
   distribute insertionSort (Node ''root'' 1
     [NewNode ''A'' 1 [NewNode ''X'' 0 [], NewNode ''Y'' 0 []], NewNode ''B'' 1 []]
     (New 10 ''USD'')) =
     (Some ErrInvalidWeights, Node ''root'' 1
        [Node ''A'' 1 [NewNode ''X'' 0 [], NewNode ''Y'' 0 []] (New 5 ''USD''),
         NewNode ''B'' 1 []] (New 10 ''USD'')) \<and>
   (\<exists>i<length [NewNode ''A'' 1 [NewNode ''X'' 0 [], NewNode ''Y'' 0 []], NewNode ''B'' 1 []].
      drop (Suc i) (Children (Node ''root'' 1
        [Node ''A'' 1 [NewNode ''X'' 0 [], NewNode ''Y'' 0 []] (New 5 ''USD''),
         NewNode ''B'' 1 []] (New 10 ''USD''))) =
      drop (Suc i) [NewNode ''A'' 1 [NewNode ''X'' 0 [], NewNode ''Y'' 0 []], NewNode ''B'' 1 []])"
proof -
  let ?kids = "[NewNode ''A'' 1 [NewNode ''X'' 0 [], NewNode ''Y'' 0 []], NewNode ''B'' 1 []]"
  let ?after = "Node ''root'' 1
        [Node ''A'' 1 [NewNode ''X'' 0 [], NewNode ''Y'' 0 []] (New 5 ''USD''),
         NewNode ''B'' 1 []] (New 10 ''USD'')"
  have h1: "?kids \<noteq> []"
    by simp
  have h2: "Split insertionSort (New 10 ''USD'') (map Weight ?kids) =
      Inr [New 5 ''USD'', New 5 ''USD'']"
    by code_simp
  have h3: "distribute insertionSort (Node ''root'' 1 ?kids (New 10 ''USD'')) =
      (Some ErrInvalidWeights, ?after)"
    by code_simp
  show ?thesis
    using distribute_failure_siblings [OF h1 h2 h3] h1 h2 h3
    by blast
qed

text \<open>
  The claim has every child assigned before any recursion. In this tree the first child
  fails (its own children have weights \<open>0, 0\<close>); \<open>Split(10, [1, 1])\<close> had assigned
  \<open>5\<close> to the second child, which still holds no amount when the error is returned.
\<close>

theorem AllocateTree_siblings_counterexample:
  "Split insertionSort (New 10 ''USD'') [1, 1] = Inr [New 5 ''USD'', New 5 ''USD''] \<and>
   AllocateTree insertionSort
     (NewNode ''root'' 1
        [NewNode ''A'' 1 [NewNode ''X'' 0 [], NewNode ''Y'' 0 []], NewNode ''B'' 1 []])
     (New 10 ''USD'') =
     (Some ErrInvalidWeights, Node ''root'' 1
        [Node ''A'' 1 [NewNode ''X'' 0 [], NewNode ''Y'' 0 []] (New 5 ''USD''),
         Node ''B'' 1 [] \<lparr>amount = 0, currency = []\<rparr>] (New 10 ''USD'')) \<and>
   Allocated (Node ''B'' 1 [] \<lparr>amount = 0, currency = []\<rparr>) \<noteq> New 5 ''USD''"
  by code_simp

end
